theory Spec2Isabelle
  imports
    Main
    "HOL-Library.Sublist"
    "HOL-Library.Char_ord"
    "HOL-Library.List_Lexorder"
begin

section \<open>go-buildtags: a shallow embedding of main.go\<close>

text \<open>
  The program walks the Go files of a list of package directories, collects the build tags
  named by file names and by the build-constraint lines of file headers into one set, and
  prints the set split into five categories.  Go strings are byte strings: they are modelled
  as \<^typ>\<open>string\<close>, a list of 8-bit characters.
\<close>

subsection \<open>Errors and constraint expressions\<close>

text \<open>
  Go's \<open>error\<close> values.  \<open>SyntaxError\<close> is \<open>constraint.SyntaxError\<close> with its \<open>Offset\<close>
  and \<open>Err\<close> fields, \<open>ErrNotConstraint\<close> the package's \<open>errNotConstraint\<close>,
  \<open>ErrTooLong\<close> is \<open>bufio.ErrTooLong\<close>, \<open>OSError\<close> any error of \<open>os\<close> or \<open>go/parser\<close>
  (opaque, with its message).  \<open>Errorf p e\<close> is \<open>fmt.Errorf(p + ": %v", e)\<close>, and
  \<open>Panic\<close> a run-time panic (a slice bound out of range).
\<close>

datatype error =
    SyntaxError nat string
  | ErrNotConstraint
  | ErrTooLong
  | OSError string
  | Errorf string error
  | Panic string

text \<open>
  The four node types that implement \<open>constraint.Expr\<close> in \<open>go/build/constraint\<close>.
\<close>

datatype Expr =
    NotExpr Expr
  | OrExpr Expr Expr
  | AndExpr Expr Expr
  | TagExpr string

subsection \<open>The tag set\<close>

text \<open>
  \<open>type tagset map[string]struct{}\<close>: a set of strings.  Methods that mutate the map
  return the new set.
\<close>

type_synonym tagset = "string set"

definition add :: "tagset \<Rightarrow> string \<Rightarrow> tagset" where
  "add s tag = insert tag s"

text \<open>
  \<open>addtags\<close> (main.go, lines 310-320).  The type switch has a case for \<open>*NotExpr\<close>, one for
  \<open>*OrExpr\<close> and one for \<open>*TagExpr\<close>; it has no default and no case for \<open>*AndExpr\<close>, so
  a conjunction falls through the switch and the set is left as it is.
\<close>

fun addtags :: "tagset \<Rightarrow> Expr \<Rightarrow> tagset" where
  "addtags tags (NotExpr x) = addtags tags x"
| "addtags tags (OrExpr x y) = addtags (addtags tags x) y"
| "addtags tags (TagExpr t) = add tags t"
| "addtags tags (AndExpr x y) = tags"

subsection \<open>The functions of package strings, strconv and path/filepath that main.go calls\<close>

text \<open>
  \<open>strings.Index(s, substr)\<close>: the index of the first instance of \<open>substr\<close> in \<open>s\<close>,
  or \<open>-1\<close>.
\<close>

fun Index_from :: "string \<Rightarrow> string \<Rightarrow> int \<Rightarrow> int" where
  "Index_from [] substr k = (if substr = [] then k else - 1)"
| "Index_from (c # cs) substr k =
     (if prefix substr (c # cs) then k else Index_from cs substr (k + 1))"

definition Index :: "string \<Rightarrow> string \<Rightarrow> int" where
  "Index s substr = Index_from s substr 0"

text \<open>
  \<open>strings.Split(s, sep)\<close>, that is \<open>genSplit(s, sep, 0, -1)\<close>: the substrings of \<open>s\<close>
  between the instances of \<open>sep\<close>.  With an empty \<open>sep\<close> Go splits after each UTF-8
  sequence; the model splits after each byte there (main.go only calls it with \<open>"_"\<close>).
\<close>

lemma Index_nonneg_nonempty:
  assumes "sep \<noteq> []" and "\<not> Index s sep < 0"
  shows "s \<noteq> []"
  using assms by (auto simp: Index_def)

function Split :: "string \<Rightarrow> string \<Rightarrow> string list" where
  "Split s sep =
     (if sep = [] then map (\<lambda>c. [c]) s
      else if Index s sep < 0 then [s]
      else take (nat (Index s sep)) s # Split (drop (nat (Index s sep) + length sep) s) sep)"
  by pat_completeness auto
termination
proof (relation "measure (\<lambda>(s, sep). length s)")
  show "wf (measure (\<lambda>(s, sep). length s))" by simp
next
  fix s sep :: string
  assume "sep \<noteq> []" and "\<not> Index s sep < 0"
  then have "s \<noteq> []" by (rule Index_nonneg_nonempty)
  with \<open>sep \<noteq> []\<close> have "length (drop (nat (Index s sep) + length sep) s) < length s"
    by (cases sep) auto
  then show "((drop (nat (Index s sep) + length sep) s, sep), (s, sep))
      \<in> measure (\<lambda>(s, sep). length s)"
    by simp
qed

declare Split.simps [simp del]

text \<open>
  \<open>strconv.Itoa(i)\<close>: the decimal representation of \<open>i\<close>.
\<close>

fun digits :: "nat \<Rightarrow> string" where
  "digits n =
     (if n < 10 then [char_of (48 + n)]
      else digits (n div 10) @ [char_of (48 + n mod 10)])"

declare digits.simps [simp del]

definition Itoa :: "int \<Rightarrow> string" where
  "Itoa i = (if i < 0 then CHR ''-'' # digits (nat (- i)) else digits (nat i))"

text \<open>
  \<open>filepath.Ext(path)\<close>: the suffix beginning at the final dot in the final element of
  \<open>path\<close>, empty if there is no dot.  The loop runs from the last byte backwards and stops at
  a path separator.
\<close>

fun Ext_loop :: "string \<Rightarrow> string \<Rightarrow> string" where
  "Ext_loop [] acc = []"
| "Ext_loop (c # cs) acc =
     (if c = CHR ''/'' then []
      else if c = CHR ''.'' then c # acc
      else Ext_loop cs (c # acc))"

definition Ext :: "string \<Rightarrow> string" where
  "Ext path = Ext_loop (rev path) []"

subsection \<open>The tables of known tags\<close>

text \<open>
  A Go \<open>map[string]bool\<close> is a partial map; reading a missing key gives \<open>false\<close>.
\<close>

type_synonym boolmap = "string \<rightharpoonup> bool"

definition lookup :: "boolmap \<Rightarrow> string \<Rightarrow> bool" where
  "lookup m k = (case m k of Some b \<Rightarrow> b | None \<Rightarrow> False)"

definition knownOS :: boolmap where
  "knownOS = map_of
     [(''aix'', True), (''android'', True), (''darwin'', True), (''dragonfly'', True),
      (''freebsd'', True), (''hurd'', True), (''illumos'', True), (''ios'', True),
      (''js'', True), (''linux'', True), (''nacl'', True), (''netbsd'', True),
      (''openbsd'', True), (''plan9'', True), (''solaris'', True), (''windows'', True),
      (''zos'', True)]"

definition knownArch :: boolmap where
  "knownArch = map_of
     [(''386'', True), (''amd64'', True), (''amd64p32'', True), (''arm'', True),
      (''armbe'', True), (''arm64'', True), (''arm64be'', True), (''mips'', True),
      (''mipsle'', True), (''mips64'', True), (''mips64le'', True), (''mips64p32'', True),
      (''mips64p32le'', True), (''ppc'', True), (''ppc64'', True), (''ppc64le'', True),
      (''riscv'', True), (''riscv64'', True), (''s390'', True), (''s390x'', True),
      (''sparc'', True), (''sparc64'', True), (''wasm'', True)]"

text \<open>
  \<open>knownReleaseTag\<close> is declared with the one key \<open>"go1"\<close>; \<open>init\<close> then runs
  \<open>for i := 1; i < 256; i++ { knownReleaseTag["go1."+strconv.Itoa(i)] = true }\<close>.
  (\<open>init\<close> also reads the environment variable GOCMD, which only \<open>golist\<close> uses.)
\<close>

definition knownReleaseTag_decl :: boolmap where
  "knownReleaseTag_decl = map_of [(''go1'', True)]"

function init_loop :: "int \<Rightarrow> boolmap \<Rightarrow> boolmap" where
  "init_loop i m =
     (if i < 256 then init_loop (i + 1) (m(''go1.'' @ Itoa i \<mapsto> True)) else m)"
  by pat_completeness auto
termination
  by (relation "measure (\<lambda>(i, m). nat (256 - i))") auto

declare init_loop.simps [simp del]

definition knownReleaseTag :: boolmap where
  "knownReleaseTag = init_loop 1 knownReleaseTag_decl"

definition knownSpecialTag :: boolmap where
  "knownSpecialTag = map_of [(''cgo'', True), (''gc'', True), (''gccgo'', True)]"

subsection \<open>Tags of a file name\<close>

text \<open>
  \<open>parsename\<close> (main.go, lines 215-241) returns a \<open>[2]string\<close>, here a pair; the zero
  value is the pair of two empty strings, and \<open>[2]string{x}\<close> is \<open>(x, "")\<close>.
  Every index is guarded by the test on \<open>n\<close> before it, as in the source.
\<close>

definition parsename :: "string \<Rightarrow> string \<times> string" where
  "parsename name0 =
     (let dot = Index name0 ''.'';
          name = (if dot \<noteq> - 1 then take (nat dot) name0 else name0);
          i = Index name ''_''
      in if i < 0 then ('''', '''')
         else
           let l0 = Split (drop (nat (i + 1)) name) ''_'';
               l = (if length l0 > 0 \<and> l0 ! (length l0 - 1) = ''test''
                    then take (length l0 - 1) l0 else l0);
               n = length l
           in if n \<ge> 2 \<and> lookup knownOS (l ! (n - 2)) \<and> lookup knownArch (l ! (n - 1))
              then (l ! (n - 1), l ! (n - 2))
              else if n \<ge> 1 \<and> (lookup knownOS (l ! (n - 1)) \<or> lookup knownArch (l ! (n - 1)))
              then (l ! (n - 1), '''')
              else ('''', ''''))"

definition add_autotags :: "tagset \<Rightarrow> string \<Rightarrow> tagset" where
  \<comment> \<open>the first statements of \<open>parse\<close> (lines 266-272): the non-empty tags of the name\<close>
  "add_autotags tags name =
     (let autotags = parsename name;
          tags1 = (if fst autotags \<noteq> '''' then add tags (fst autotags) else tags);
          tags2 = (if snd autotags \<noteq> '''' then add tags1 (snd autotags) else tags1)
      in tags2)"

subsection \<open>Tags of a file header\<close>

text \<open>
  The functions of the standard library's package \<open>go/build/constraint\<close> that main.go
  calls.  They are not part of the program: every function below takes them as a
  parameter, and the theorems about the program hold for all of them.
\<close>

record constraint_pkg =
  IsGoBuild :: "string \<Rightarrow> bool"
  IsPlusBuild :: "string \<Rightarrow> bool"
  Parse :: "string \<Rightarrow> error + Expr"

definition isBuildLine :: "constraint_pkg \<Rightarrow> string \<Rightarrow> bool" where
  "isBuildLine C line = (if IsGoBuild C line \<or> IsPlusBuild C line then True else False)"

text \<open>
  \<open>bufio.Scanner\<close> over the header, with the default split function \<open>ScanLines\<close> and the
  default buffer: the lines of the input without their end-of-line marker (a newline, with
  one carriage return before it dropped), the last one also when no newline ends it.  A
  line that does not fit the buffer of \<open>MaxScanTokenSize\<close> bytes stops the scan, and
  \<open>sc.Err()\<close> is then \<open>ErrTooLong\<close>.  \<open>scan_lines\<close> gives the tokens of the successive
  calls of \<open>sc.Scan()\<close> and the final value of \<open>sc.Err()\<close>.
\<close>

definition MaxScanTokenSize :: nat where
  "MaxScanTokenSize = 64 * 1024"

definition dropCR :: "string \<Rightarrow> string" where
  "dropCR data =
     (if length data > 0 \<and> data ! (length data - 1) = CHR 0x0D
      then take (length data - 1) data else data)"

function scan_lines :: "string \<Rightarrow> string list \<times> error option" where
  "scan_lines data =
     (if data = [] then ([], None)
      else if length (takeWhile (\<lambda>c. c \<noteq> CHR 0x0A) data) \<ge> MaxScanTokenSize
      then ([], Some ErrTooLong)
      else case scan_lines (drop (length (takeWhile (\<lambda>c. c \<noteq> CHR 0x0A) data) + 1) data) of
             (tokens, err) \<Rightarrow> (dropCR (takeWhile (\<lambda>c. c \<noteq> CHR 0x0A) data) # tokens, err))"
  by pat_completeness auto
termination
  by (relation "measure length") auto

declare scan_lines.simps [simp del]

text \<open>
  \<open>parsetags\<close> (lines 288-307).  The set is mutated in place, so the caller sees the tags of
  the lines before a failing one: the function returns the set together with the error.
\<close>

fun parsetags_loop :: "constraint_pkg \<Rightarrow> tagset \<Rightarrow> string list \<Rightarrow> tagset \<times> error option" where
  "parsetags_loop C tags [] = (tags, None)"
| "parsetags_loop C tags (line # rest) =
     (if \<not> isBuildLine C line then parsetags_loop C tags rest
      else case Parse C line of
             Inl err \<Rightarrow> (tags, Some (Errorf ''parsetags'' err))
           | Inr expr \<Rightarrow> parsetags_loop C (addtags tags expr) rest)"

definition parsetags :: "constraint_pkg \<Rightarrow> tagset \<Rightarrow> string \<Rightarrow> tagset \<times> error option" where
  "parsetags C tags header =
     (case scan_lines header of
        (lines, scan_err) \<Rightarrow>
          (case parsetags_loop C tags lines of
             (tags', Some err) \<Rightarrow> (tags', Some err)
           | (tags', None) \<Rightarrow>
               (case scan_err of
                  Some err \<Rightarrow> (tags', Some (Errorf ''parsetags: internal error'' err))
                | None \<Rightarrow> (tags', None))))"

subsection \<open>Files and directories\<close>

text \<open>
  What the program reads from outside: \<open>os.ReadDir\<close>, \<open>os.ReadFile\<close>, the position
  \<open>f.Package\<close> of the package keyword in the file that \<open>parser.ParseFile\<close> parses (with
  the mode \<open>PackageClauseOnly | ParseComments\<close>), and \<open>filepath.Join\<close>.  An entry of a
  directory has a name and the type bits of its mode, \<open>0\<close> for a regular file.
\<close>

record DirEntry =
  Name :: string
  Type :: nat

record world =
  ReadDir :: "string \<Rightarrow> error + DirEntry list"
  ReadFile :: "string \<Rightarrow> error + string"
  ParseFile :: "string \<Rightarrow> error + int"
  Join :: "string \<Rightarrow> string \<Rightarrow> string"

text \<open>\<open>readdir\<close> (lines 198-212).\<close>

fun readdir_loop :: "DirEntry list \<Rightarrow> string list \<Rightarrow> string list" where
  "readdir_loop [] list = list"
| "readdir_loop (file # files) list =
     (if Type file = 0 \<and> Ext (Name file) = ''.go''
      then readdir_loop files (list @ [Name file])
      else readdir_loop files list)"

definition readdir :: "world \<Rightarrow> string \<Rightarrow> error + string list" where
  "readdir W dir =
     (case ReadDir W dir of
        Inl err \<Rightarrow> Inl err
      | Inr files \<Rightarrow> Inr (readdir_loop files []))"

text \<open>
  \<open>parseheader\<close> (lines 245-261): \<open>src[:f.Package-1]\<close>, which panics when the bound is
  outside the slice.
\<close>

definition parseheader :: "world \<Rightarrow> string \<Rightarrow> error + string" where
  "parseheader W path =
     (case ReadFile W path of
        Inl err \<Rightarrow> Inl (Errorf ''parseheader'' err)
      | Inr src \<Rightarrow>
          (case ParseFile W path of
             Inl err \<Rightarrow> Inl (Errorf ''parseheader'' err)
           | Inr Package \<Rightarrow>
               if 0 \<le> Package - 1 \<and> Package - 1 \<le> int (length src)
               then Inr (take (nat (Package - 1)) src)
               else Inl (Panic ''slice bounds out of range'')))"

text \<open>\<open>parse\<close> (lines 264-285).\<close>

definition parse :: "constraint_pkg \<Rightarrow> world \<Rightarrow> tagset \<Rightarrow> string \<Rightarrow> string \<Rightarrow> tagset \<times> error option" where
  "parse C W tags dir name =
     (let tags1 = add_autotags tags name;
          path = Join W dir name
      in case parseheader W path of
           Inl err \<Rightarrow> (tags1, Some (Errorf (''parse '' @ path) err))
         | Inr header \<Rightarrow>
             (case parsetags C tags1 header of
                (tags2, Some err) \<Rightarrow> (tags2, Some (Errorf (''parse '' @ path) err))
              | (tags2, None) \<Rightarrow> (tags2, None)))"

subsection \<open>The run\<close>

text \<open>
  The two nested loops at the head of \<open>run\<close> (lines 153-164): they return at the first
  error.
\<close>

fun parse_files ::
  "constraint_pkg \<Rightarrow> world \<Rightarrow> tagset \<Rightarrow> string \<Rightarrow> string list \<Rightarrow> tagset \<times> error option" where
  "parse_files C W tags dir [] = (tags, None)"
| "parse_files C W tags dir (name # gofiles) =
     (case parse C W tags dir name of
        (tags', Some err) \<Rightarrow> (tags', Some err)
      | (tags', None) \<Rightarrow> parse_files C W tags' dir gofiles)"

fun parse_dirs ::
  "constraint_pkg \<Rightarrow> world \<Rightarrow> tagset \<Rightarrow> string list \<Rightarrow> tagset \<times> error option" where
  "parse_dirs C W tags [] = (tags, None)"
| "parse_dirs C W tags (dir # directories) =
     (case readdir W dir of
        Inl err \<Rightarrow> (tags, Some err)
      | Inr gofiles \<Rightarrow>
          (case parse_files C W tags dir gofiles of
             (tags', Some err) \<Rightarrow> (tags', Some err)
           | (tags', None) \<Rightarrow> parse_dirs C W tags' directories))"

text \<open>
  The five sets of the categorisation (lines 166-185) and the \<open>switch\<close> in the loop's body:
  the first case that holds takes the tag.
\<close>

record buckets =
  goos :: tagset
  goarch :: tagset
  release :: tagset
  special :: tagset
  build :: tagset

definition empty_buckets :: buckets where
  "empty_buckets = \<lparr>goos = {}, goarch = {}, release = {}, special = {}, build = {}\<rparr>"

definition categorize_tag :: "string \<Rightarrow> buckets \<Rightarrow> buckets" where
  "categorize_tag tag b =
     (if lookup knownOS tag then b\<lparr>goos := add (goos b) tag\<rparr>
      else if lookup knownArch tag then b\<lparr>goarch := add (goarch b) tag\<rparr>
      else if lookup knownReleaseTag tag then b\<lparr>release := add (release b) tag\<rparr>
      else if lookup knownSpecialTag tag then b\<lparr>special := add (special b) tag\<rparr>
      else b\<lparr>build := add (build b) tag\<rparr>)"

text \<open>
  \<open>for tag := range tags\<close> visits each key of the map once, in an order that Go leaves
  unspecified.  The loop is a recursion over the list of the keys in the order of the visit;
  \<open>range_keys\<close> fixes one order, the ascending one, to make the run a function.
\<close>

fun categorize_loop :: "string list \<Rightarrow> buckets \<Rightarrow> buckets" where
  "categorize_loop [] b = b"
| "categorize_loop (tag # keys) b = categorize_loop keys (categorize_tag tag b)"

definition range_keys :: "tagset \<Rightarrow> string list" where
  "range_keys tags = sorted_list_of_set tags"

definition categorize :: "tagset \<Rightarrow> buckets" where
  "categorize tags = categorize_loop (range_keys tags) empty_buckets"

text \<open>
  \<open>tagset.sorted\<close> (lines 104-112): the keys are appended to a list in the order of the
  visit, and \<open>sort.Strings\<close> puts the list in increasing order.  Go compares strings byte
  by byte, which is the lexicographic order of \<^typ>\<open>string\<close> over the order of
  \<^typ>\<open>char\<close> by code.
\<close>

definition sort_Strings :: "string list \<Rightarrow> string list" where
  "sort_Strings list = sort list"

definition sorted_keys :: "string list \<Rightarrow> string list" where
  \<comment> \<open>the body of \<open>tagset.sorted\<close> for the keys in the order \<open>keys\<close> of the visit\<close>
  "sorted_keys keys = sort_Strings (foldl (\<lambda>list tag. list @ [tag]) [] keys)"

definition tagset_sorted :: "tagset \<Rightarrow> string list" where
  "tagset_sorted s = sorted_keys (range_keys s)"

text \<open>
  \<open>fmt.Println(label, list)\<close> writes the label, a space, the list in brackets with a space
  between its elements, and a newline.  The standard output is the list of the lines
  written.
\<close>

fun join_space :: "string list \<Rightarrow> string" where
  "join_space [] = []"
| "join_space [x] = x"
| "join_space (x # y # zs) = x @ '' '' @ join_space (y # zs)"

definition Println :: "string \<Rightarrow> string list \<Rightarrow> string" where
  "Println label list = label @ '' ['' @ join_space list @ '']''"

text \<open>\<open>run\<close> (lines 151-195): the lines printed and the error returned.\<close>

definition run :: "constraint_pkg \<Rightarrow> world \<Rightarrow> string list \<Rightarrow> string list \<times> error option" where
  "run C W directories =
     (case parse_dirs C W {} directories of
        (tags, Some err) \<Rightarrow> ([], Some err)
      | (tags, None) \<Rightarrow>
          (let b = categorize tags
           in ([Println ''GOOS:'' (tagset_sorted (goos b)),
                Println ''GOARCH:'' (tagset_sorted (goarch b)),
                Println ''release-tag:'' (tagset_sorted (release b)),
                Println ''special-tag:'' (tagset_sorted (special b)),
                Println ''build-tag:'' (tagset_sorted (build b))], None)))"

subsection \<open>The standard library's package go/build/constraint\<close>

text \<open>
  A model of the package that main.go imports (expr.go, as released with Go 1.16, the
  release that the README asks for), used to run the program on concrete headers.  Go
  classifies runes with \<open>unicode.IsSpace\<close>, \<open>unicode.IsLetter\<close> and
  \<open>unicode.IsDigit\<close>; the model knows the ASCII letters, digits and white space only, so it
  is the package's behaviour on ASCII lines.
\<close>

definition isSpace :: "char \<Rightarrow> bool" where
  "isSpace c =
     (c = CHR 0x09 \<or> c = CHR 0x0A \<or> c = CHR 0x0B \<or> c = CHR 0x0C \<or> c = CHR 0x0D \<or> c = CHR '' '')"

definition isLetter :: "char \<Rightarrow> bool" where
  "isLetter c =
     ((97 \<le> (of_char c :: nat) \<and> (of_char c :: nat) \<le> 122)
      \<or> (65 \<le> (of_char c :: nat) \<and> (of_char c :: nat) \<le> 90))"

definition isDigit :: "char \<Rightarrow> bool" where
  "isDigit c = (48 \<le> (of_char c :: nat) \<and> (of_char c :: nat) \<le> 57)"

definition TrimSpace :: "string \<Rightarrow> string" where
  "TrimSpace s = rev (dropWhile isSpace (rev (dropWhile isSpace s)))"

definition HasPrefix :: "string \<Rightarrow> string \<Rightarrow> bool" where
  "HasPrefix s pre = prefix pre s"

definition Contains :: "string \<Rightarrow> string \<Rightarrow> bool" where
  "Contains s substr = (Index s substr \<ge> 0)"

lemma dropWhile_shorter:
  assumes "dropWhile P s \<noteq> []"
  shows "length (dropWhile (\<lambda>c. \<not> P c) (dropWhile P s)) < length s"
proof -
  from assms obtain x xs where eq: "dropWhile P s = x # xs" by (cases "dropWhile P s") auto
  then have "\<not> P x" by (metis hd_dropWhile list.distinct(1) list.sel(1))
  then have "length (dropWhile (\<lambda>c. \<not> P c) (x # xs)) \<le> length xs"
    by (simp add: length_dropWhile_le)
  moreover have "length (x # xs) \<le> length s"
    unfolding eq [symmetric] by (rule length_dropWhile_le)
  ultimately show ?thesis using eq by simp
qed

text \<open>\<open>strings.Fields(s)\<close>: the substrings of \<open>s\<close> between runs of white space.\<close>

function Fields :: "string \<Rightarrow> string list" where
  "Fields s =
     (if dropWhile isSpace s = [] then []
      else takeWhile (\<lambda>c. \<not> isSpace c) (dropWhile isSpace s)
           # Fields (dropWhile (\<lambda>c. \<not> isSpace c) (dropWhile isSpace s)))"
  by pat_completeness auto
termination
  by (relation "measure length") (auto intro: dropWhile_shorter)

declare Fields.simps [simp del]

definition chopNewline :: "string \<Rightarrow> string" where
  \<comment> \<open>\<open>if len(line) > 0 && line[len(line)-1] == '\n' { line = line[:len(line)-1] }\<close>\<close>
  "chopNewline line =
     (if length line > 0 \<and> line ! (length line - 1) = CHR 0x0A
      then take (length line - 1) line else line)"

text \<open>
  \<open>splitGoBuild\<close> and \<open>splitPlusBuild\<close> return the expression text of a line and whether
  the line is a constraint line of the form at all.
\<close>

definition splitGoBuild :: "string \<Rightarrow> string \<times> bool" where
  "splitGoBuild line0 =
     (let line1 = chopNewline line0
      in if Contains line1 [CHR 0x0A] then ('''', False)
         else if \<not> HasPrefix line1 ''//go:build'' then ('''', False)
         else
           let line2 = drop (length ''//go:build'') (TrimSpace line1);
               trim = TrimSpace line2
           in if length line2 = length trim \<and> line2 \<noteq> '''' then ('''', False)
              else (trim, True))"

definition splitPlusBuild :: "string \<Rightarrow> string \<times> bool" where
  "splitPlusBuild line0 =
     (let line1 = chopNewline line0
      in if Contains line1 [CHR 0x0A] then ('''', False)
         else if \<not> HasPrefix line1 ''//'' then ('''', False)
         else
           let line2 = TrimSpace (drop (length ''//'') line1)
           in if \<not> HasPrefix line2 ''+build'' then ('''', False)
              else
                let line3 = drop (length ''+build'') line2;
                    trim = TrimSpace line3
                in if length line3 = length trim \<and> line3 \<noteq> '''' then ('''', False)
                   else (trim, True))"

definition constraint_IsGoBuild :: "string \<Rightarrow> bool" where
  "constraint_IsGoBuild line = snd (splitGoBuild line)"

definition constraint_IsPlusBuild :: "string \<Rightarrow> bool" where
  "constraint_IsPlusBuild line = snd (splitPlusBuild line)"

text \<open>
  The parser of \<open>//go:build\<close> expressions: the input \<open>s\<close>, the next read location \<open>i\<close>,
  the last token read, whether it is a tag, and where it starts.  A panic with a
  \<open>*SyntaxError\<close>, which \<open>parseExpr\<close> recovers and returns, is the result \<open>Inl\<close>.
\<close>

record exprParser =
  p_s :: string
  p_i :: nat
  p_tok :: string
  p_isTag :: bool
  p_pos :: nat

definition isTagChar :: "char \<Rightarrow> bool" where
  \<comment> \<open>\<open>unicode.IsLetter(c) || unicode.IsDigit(c) || c == '_' || c == '.'\<close>\<close>
  "isTagChar c = (isLetter c \<or> isDigit c \<or> c = CHR ''_'' \<or> c = CHR ''.'')"

definition p_lex :: "exprParser \<Rightarrow> error + exprParser" where
  "p_lex p0 =
     (let p = p0\<lparr>p_isTag := False\<rparr>;
          s = p_s p;
          i = p_i p + length (takeWhile (\<lambda>c. c = CHR '' '' \<or> c = CHR 0x09) (drop (p_i p) s))
      in if i \<ge> length s then Inr (p\<lparr>p_i := i, p_tok := '''', p_pos := i\<rparr>)
         else if s ! i = CHR ''('' \<or> s ! i = CHR '')'' \<or> s ! i = CHR ''!''
         then Inr (p\<lparr>p_pos := i, p_i := i + 1, p_tok := [s ! i]\<rparr>)
         else if s ! i = CHR ''&'' \<or> s ! i = CHR ''|''
         then (if i + 1 \<ge> length s \<or> s ! (i + 1) \<noteq> s ! i
               then Inl (SyntaxError i (''invalid syntax at '' @ [s ! i]))
               else Inr (p\<lparr>p_pos := i, p_i := i + 2, p_tok := [s ! i, s ! i]\<rparr>))
         else if takeWhile isTagChar (drop i s) = ''''
         then Inl (SyntaxError i (''invalid syntax at '' @ [s ! i]))
         else Inr (p\<lparr>p_pos := i, p_i := i + length (takeWhile isTagChar (drop i s)),
                    p_tok := takeWhile isTagChar (drop i s), p_isTag := True\<rparr>))"

definition remaining :: "exprParser \<Rightarrow> nat" where
  "remaining p = length (p_s p) - p_i p"

lemma lex_remaining_le: "p_lex p = Inr p1 \<Longrightarrow> remaining p1 \<le> remaining p"
  by (auto simp: p_lex_def remaining_def Let_def split: if_splits)

lemma length_takeWhile_drop: "i + length (takeWhile P (drop i s)) \<le> max i (length s)"
proof -
  have "length (takeWhile P (drop i s)) \<le> length (drop i s)" by (rule length_takeWhile_le)
  then show ?thesis by simp
qed

lemma lex_remaining_less:
  assumes "p_lex p = Inr p1" and "p_tok p1 \<noteq> ''''"
  shows "remaining p1 < remaining p"
proof -
  define i where
    "i = p_i p + length (takeWhile (\<lambda>c. c = CHR '' '' \<or> c = CHR 0x09) (drop (p_i p) (p_s p)))"
  define tag where "tag = takeWhile isTagChar (drop i (p_s p))"
  from assms have lt: "i < length (p_s p)"
    by (auto simp: p_lex_def Let_def i_def split: if_splits)
  have "i + length tag \<le> max i (length (p_s p))"
    unfolding tag_def by (rule length_takeWhile_drop)
  with lt have le: "i + length tag \<le> length (p_s p)" by simp
  have ge: "p_i p \<le> i" by (simp add: i_def)
  from assms have "p_i p1 = i + 1 \<or> p_i p1 = i + 2 \<and> i + 1 < length (p_s p)
      \<or> p_i p1 = i + length tag \<and> tag \<noteq> []"
    by (auto simp: p_lex_def Let_def i_def [symmetric] tag_def [symmetric] split: if_splits)
  then obtain k where k: "0 < k" "p_i p1 = i + k" "i + k \<le> length (p_s p)"
    using lt le by (cases "tag = []") auto
  from assms have "p_s p1 = p_s p"
    by (auto simp: p_lex_def Let_def split: if_splits)
  with k ge show ?thesis
    unfolding remaining_def by simp
qed

lemma lex_not_tag_empty: "p_lex p = Inr p1 \<Longrightarrow> p_tok p1 = '''' \<Longrightarrow> \<not> p_isTag p1"
  by (auto simp: p_lex_def Let_def split: if_splits)

text \<open>
  The methods \<open>or\<close>, \<open>and\<close>, \<open>not\<close> and \<open>atom\<close> of the parser; the \<open>for\<close> loops of \<open>or\<close>
  and \<open>and\<close> are \<open>p_or_loop\<close> and \<open>p_and_loop\<close>.  The deferred function of \<open>atom\<close> renames
  the error "unexpected end of expression" of the parenthesised expression.
\<close>

function (domintros)
  p_or :: "exprParser \<Rightarrow> error + Expr \<times> exprParser" and
  p_or_loop :: "Expr \<Rightarrow> exprParser \<Rightarrow> error + Expr \<times> exprParser" and
  p_and :: "exprParser \<Rightarrow> error + Expr \<times> exprParser" and
  p_and_loop :: "Expr \<Rightarrow> exprParser \<Rightarrow> error + Expr \<times> exprParser" and
  p_not :: "exprParser \<Rightarrow> error + Expr \<times> exprParser" and
  p_atom :: "exprParser \<Rightarrow> error + Expr \<times> exprParser"
where
  "p_or p = (case p_and p of Inl e \<Rightarrow> Inl e | Inr (x, p1) \<Rightarrow> p_or_loop x p1)"
| "p_or_loop x p =
     (if p_tok p = ''||''
      then (case p_and p of Inl e \<Rightarrow> Inl e | Inr (y, p1) \<Rightarrow> p_or_loop (OrExpr x y) p1)
      else Inr (x, p))"
| "p_and p = (case p_not p of Inl e \<Rightarrow> Inl e | Inr (x, p1) \<Rightarrow> p_and_loop x p1)"
| "p_and_loop x p =
     (if p_tok p = ''&&''
      then (case p_not p of Inl e \<Rightarrow> Inl e | Inr (y, p1) \<Rightarrow> p_and_loop (AndExpr x y) p1)
      else Inr (x, p))"
| "p_not p =
     (case p_lex p of
        Inl e \<Rightarrow> Inl e
      | Inr p1 \<Rightarrow>
          if p_tok p1 = ''!''
          then (case p_lex p1 of
                  Inl e \<Rightarrow> Inl e
                | Inr p2 \<Rightarrow>
                    if p_tok p2 = ''!''
                    then Inl (SyntaxError (p_pos p2) ''double negation not allowed'')
                    else (case p_atom p2 of
                            Inl e \<Rightarrow> Inl e
                          | Inr (x, p3) \<Rightarrow> Inr (NotExpr x, p3)))
          else p_atom p1)"
| "p_atom p =
     (if p_tok p = ''(''
      then (case p_or p of
              Inl (SyntaxError off msg) \<Rightarrow>
                Inl (SyntaxError off (if msg = ''unexpected end of expression''
                                      then ''missing close paren'' else msg))
            | Inl e \<Rightarrow> Inl e
            | Inr (x, p1) \<Rightarrow>
                if p_tok p1 \<noteq> '')'' then Inl (SyntaxError (p_pos p) ''missing close paren'')
                else (case p_lex p1 of Inl e \<Rightarrow> Inl e | Inr p2 \<Rightarrow> Inr (x, p2)))
      else if \<not> p_isTag p
      then (if p_tok p = '''' then Inl (SyntaxError (p_pos p) ''unexpected end of expression'')
            else Inl (SyntaxError (p_pos p) (''unexpected token '' @ p_tok p)))
      else (case p_lex p of Inl e \<Rightarrow> Inl e | Inr p1 \<Rightarrow> Inr (TagExpr (p_tok p), p1)))"
  by pat_completeness auto

text \<open>
  Termination: every call of \<open>not\<close> that returns has read at least one byte, so the input
  that remains gets shorter from one turn of a loop to the next and from a parenthesis to
  the expression inside it.
\<close>

lemma p_remaining:
  "p_or_p_or_loop_p_and_p_and_loop_p_not_p_atom_dom (Inl (Inl p)) \<Longrightarrow>
     \<forall>x p'. p_or p = Inr (x, p') \<longrightarrow> remaining p' < remaining p"
  "p_or_p_or_loop_p_and_p_and_loop_p_not_p_atom_dom (Inl (Inr (Inl (x0, p0)))) \<Longrightarrow>
     \<forall>x p'. p_or_loop x0 p0 = Inr (x, p') \<longrightarrow> remaining p' \<le> remaining p0"
  "p_or_p_or_loop_p_and_p_and_loop_p_not_p_atom_dom (Inl (Inr (Inr p1))) \<Longrightarrow>
     \<forall>x p'. p_and p1 = Inr (x, p') \<longrightarrow> remaining p' < remaining p1"
  "p_or_p_or_loop_p_and_p_and_loop_p_not_p_atom_dom (Inr (Inl (x2, p2))) \<Longrightarrow>
     \<forall>x p'. p_and_loop x2 p2 = Inr (x, p') \<longrightarrow> remaining p' \<le> remaining p2"
  "p_or_p_or_loop_p_and_p_and_loop_p_not_p_atom_dom (Inr (Inr (Inl p3))) \<Longrightarrow>
     \<forall>x p'. p_not p3 = Inr (x, p') \<longrightarrow> remaining p' < remaining p3"
  "p_or_p_or_loop_p_and_p_and_loop_p_not_p_atom_dom (Inr (Inr (Inr p4))) \<Longrightarrow>
     \<forall>x p'. p_atom p4 = Inr (x, p') \<longrightarrow>
       remaining p' \<le> remaining p4 \<and> (p_tok p4 \<noteq> ''('' \<longrightarrow> p_isTag p4)"
proof (induction p and x0 p0 and p1 and x2 p2 and p3 and p4
    rule: p_or_p_or_loop_p_and_p_and_loop_p_not_p_atom.pinduct)
  case (1 p)
  then show ?case
    by (fastforce simp: p_or.psimps split: sum.splits prod.splits)
next
  case (2 x p)
  then show ?case
    by (fastforce simp: p_or_loop.psimps split: sum.splits prod.splits if_splits)
next
  case (3 p)
  then show ?case
    by (fastforce simp: p_and.psimps split: sum.splits prod.splits)
next
  case (4 x p)
  then show ?case
    by (fastforce simp: p_and_loop.psimps split: sum.splits prod.splits if_splits)
next
  case (5 p)
  show ?case
  proof (intro allI impI)
    fix x p'
    assume res: "p_not p = Inr (x, p')"
    from res "5.hyps" obtain b where b: "p_lex p = Inr b"
      by (auto simp: p_not.psimps split: sum.splits)
    show "remaining p' < remaining p"
    proof (cases "p_tok b = ''!''")
      case True
      with b have lt: "remaining b < remaining p" by (auto intro: lex_remaining_less)
      from res "5.hyps" b True obtain ba y where ba: "p_lex b = Inr ba" "p_tok ba \<noteq> ''!''"
        "p_atom ba = Inr (y, p')"
        by (auto simp: p_not.psimps split: sum.splits if_splits)
      from "5.IH"(1) [OF b True ba(1) ba(2)] ba(3) have "remaining p' \<le> remaining ba" by auto
      moreover from ba(1) have "remaining ba \<le> remaining b" by (rule lex_remaining_le)
      ultimately show ?thesis using lt by simp
    next
      case False
      with res "5.hyps" b have at: "p_atom b = Inr (x, p')"
        by (auto simp: p_not.psimps split: sum.splits if_splits)
      from "5.IH"(2) [OF b False] at
      have le: "remaining p' \<le> remaining b" and tg: "p_tok b \<noteq> ''('' \<longrightarrow> p_isTag b" by auto
      have "p_tok b \<noteq> ''''"
      proof
        assume e: "p_tok b = ''''"
        with b have "\<not> p_isTag b" by (auto dest: lex_not_tag_empty)
        with tg e show False by simp
      qed
      with b have "remaining b < remaining p" by (rule lex_remaining_less)
      with le show ?thesis by simp
    qed
  qed
next
  case (6 p)
  show ?case
  proof (intro allI impI)
    fix x p'
    assume res: "p_atom p = Inr (x, p')"
    show "remaining p' \<le> remaining p \<and> (p_tok p \<noteq> ''('' \<longrightarrow> p_isTag p)"
    proof (cases "p_tok p = ''(''")
      case True
      with res "6.hyps" obtain p1 where "p_or p = Inr (x, p1)" "p_lex p1 = Inr p'"
        by (auto simp: p_atom.psimps split: sum.splits if_splits error.splits)
      with "6.IH" [OF True] have "remaining p1 < remaining p" "remaining p' \<le> remaining p1"
        by (auto dest: lex_remaining_le)
      with True show ?thesis by simp
    next
      case False
      with res "6.hyps" show ?thesis
        by (auto simp: p_atom.psimps split: sum.splits if_splits dest: lex_remaining_le)
    qed
  qed
qed

termination p_or
proof (relation "measure (\<lambda>c. case c of
      Inl (Inl p) \<Rightarrow> 4 * remaining p + 3
    | Inl (Inr (Inl (x, p))) \<Rightarrow> 4 * remaining p + 3
    | Inl (Inr (Inr p)) \<Rightarrow> 4 * remaining p + 2
    | Inr (Inl (x, p)) \<Rightarrow> 4 * remaining p + 2
    | Inr (Inr (Inl p)) \<Rightarrow> 4 * remaining p + 1
    | Inr (Inr (Inr p)) \<Rightarrow> (if p_tok p = ''('' then 4 * remaining p + 4 else 0))")
  show "wf (measure (\<lambda>c. case c of
      Inl (Inl p) \<Rightarrow> 4 * remaining p + 3
    | Inl (Inr (Inl (x, p))) \<Rightarrow> 4 * remaining p + 3
    | Inl (Inr (Inr p)) \<Rightarrow> 4 * remaining p + 2
    | Inr (Inl (x, p)) \<Rightarrow> 4 * remaining p + 2
    | Inr (Inr (Inl p)) \<Rightarrow> 4 * remaining p + 1
    | Inr (Inr (Inr p)) \<Rightarrow> (if p_tok p = ''('' then 4 * remaining p + 4 else 0)))"
    by simp
qed (use p_remaining(1,3,5) lex_remaining_less lex_remaining_le in \<open>force+\<close>)

declare p_or.simps [simp del] p_or_loop.simps [simp del] p_and.simps [simp del]
  p_and_loop.simps [simp del] p_not.simps [simp del] p_atom.simps [simp del]

definition parseExpr :: "string \<Rightarrow> error + Expr" where
  "parseExpr text =
     (case p_or \<lparr>p_s = text, p_i = 0, p_tok = '''', p_isTag = False, p_pos = 0\<rparr> of
        Inl e \<Rightarrow> Inl e
      | Inr (x, p) \<Rightarrow>
          if p_tok p \<noteq> '''' then Inl (SyntaxError (p_pos p) (''unexpected token '' @ p_tok p))
          else Inr x)"

text \<open>
  The parser of \<open>// +build\<close> lines: the clauses between white space are alternatives, the
  literals between commas in a clause are conjoined.  It never fails; what is not a valid
  tag is read as the tag \<open>ignore\<close>.  A \<open>nil\<close> expression is \<open>None\<close>.
\<close>

definition isValidTag :: "string \<Rightarrow> bool" where
  "isValidTag word = (word \<noteq> '''' \<and> list_all isTagChar word)"

definition plusBuildLit :: "string \<Rightarrow> Expr" where
  \<comment> \<open>the expression \<open>z\<close> of one literal\<close>
  "plusBuildLit lit =
     (if HasPrefix lit ''!!'' \<or> lit = ''!'' then TagExpr ''ignore''
      else
        let neg = HasPrefix lit ''!'';
            lit1 = (if neg then drop (length ''!'') lit else lit);
            z = (if isValidTag lit1 then TagExpr lit1 else TagExpr ''ignore'')
        in if neg then NotExpr z else z)"

fun plusBuildClause :: "string list \<Rightarrow> Expr option \<Rightarrow> Expr option" where
  "plusBuildClause [] y = y"
| "plusBuildClause (lit # lits) y =
     plusBuildClause lits
       (case y of None \<Rightarrow> Some (plusBuildLit lit) | Some y' \<Rightarrow> Some (AndExpr y' (plusBuildLit lit)))"

fun plusBuildClauses :: "string list \<Rightarrow> Expr option \<Rightarrow> Expr option" where
  "plusBuildClauses [] x = x"
| "plusBuildClauses (clause # clauses) x =
     plusBuildClauses clauses
       (case (x, plusBuildClause (Split clause '','') None) of
          (None, y) \<Rightarrow> y
        | (Some x', Some y') \<Rightarrow> Some (OrExpr x' y')
        | (Some x', None) \<Rightarrow> Some x')"

definition parsePlusBuildExpr :: "string \<Rightarrow> Expr" where
  "parsePlusBuildExpr text =
     (case plusBuildClauses (Fields text) None of
        None \<Rightarrow> TagExpr ''ignore''
      | Some x \<Rightarrow> x)"

definition constraint_Parse :: "string \<Rightarrow> error + Expr" where
  "constraint_Parse line =
     (case splitGoBuild line of
        (text, True) \<Rightarrow> parseExpr text
      | (text, False) \<Rightarrow>
          (case splitPlusBuild line of
             (text, True) \<Rightarrow> Inr (parsePlusBuildExpr text)
           | (text, False) \<Rightarrow> Inl ErrNotConstraint))"

definition go_build_constraint :: constraint_pkg where
  "go_build_constraint =
     \<lparr>IsGoBuild = constraint_IsGoBuild, IsPlusBuild = constraint_IsPlusBuild,
      Parse = constraint_Parse\<rparr>"

section \<open>Notions of the specification\<close>

text \<open>
  The atoms of a constraint expression, in the specification's words: every tag at a leaf
  of the tree, under negation, disjunction and conjunction alike.
\<close>

fun atoms :: "Expr \<Rightarrow> string set" where
  "atoms (TagExpr t) = {t}"
| "atoms (NotExpr x) = atoms x"
| "atoms (OrExpr x y) = atoms x \<union> atoms y"
| "atoms (AndExpr x y) = atoms x \<union> atoms y"

text \<open>
  The lines of a header: the text between newlines, whatever the length of a line, each
  without the carriage return that may end it.
\<close>

function text_lines :: "string \<Rightarrow> string list" where
  "text_lines data =
     (if data = [] then []
      else dropCR (takeWhile (\<lambda>c. c \<noteq> CHR 0x0A) data)
           # text_lines (drop (length (takeWhile (\<lambda>c. c \<noteq> CHR 0x0A) data) + 1) data))"
  by pat_completeness auto
termination
  by (relation "measure length") auto

declare text_lines.simps [simp del]

text \<open>
  A directory with one Go file whose header holds a constraint line that does not parse,
  and one with a file whose name and header name tags of every category.
\<close>

definition sample_world :: world where
  "sample_world =
     \<lparr>ReadDir = (\<lambda>dir.
        if dir = ''/src/bad'' then Inr [\<lparr>Name = ''bad.go'', Type = 0\<rparr>]
        else if dir = ''/src/good''
        then Inr [\<lparr>Name = ''README.md'', Type = 0\<rparr>, \<lparr>Name = ''good_arm64.go'', Type = 0\<rparr>]
        else Inl (OSError ''no such file or directory'')),
      ReadFile = (\<lambda>path.
        if path = ''/src/bad/bad.go''
        then Inr (''//go:build linux &&'' @ [CHR 0x0A, CHR 0x0A] @ ''package bad'' @ [CHR 0x0A])
        else if path = ''/src/good/good_arm64.go''
        then Inr (''//go:build linux || go1.16 || gc || mytag'' @ [CHR 0x0A, CHR 0x0A]
                  @ ''package good'' @ [CHR 0x0A])
        else Inl (OSError ''no such file or directory'')),
      ParseFile = (\<lambda>path.
        if path = ''/src/bad/bad.go'' then Inr 22
        else if path = ''/src/good/good_arm64.go'' then Inr 44
        else Inl (OSError ''no such file or directory'')),
      Join = (\<lambda>dir name. dir @ ''/'' @ name)\<rparr>"

text \<open>The number that a string of decimal digits denotes.\<close>

fun decimal :: "string \<Rightarrow> nat" where
  "decimal [] = 0"
| "decimal (c # cs) = (of_char c - 48) * 10 ^ length cs + decimal cs"

text \<open>An expression without a conjunction anywhere in it.\<close>

fun and_free :: "Expr \<Rightarrow> bool" where
  "and_free (TagExpr t) = True"
| "and_free (NotExpr x) = and_free x"
| "and_free (OrExpr x y) = (and_free x \<and> and_free y)"
| "and_free (AndExpr x y) = False"

text \<open>The atoms of an expression that are not below a conjunction.\<close>

fun outside_and :: "Expr \<Rightarrow> string set" where
  "outside_and (TagExpr t) = {t}"
| "outside_and (NotExpr x) = outside_and x"
| "outside_and (OrExpr x y) = outside_and x \<union> outside_and y"
| "outside_and (AndExpr x y) = {}"

section \<open>Properties\<close>

subsection \<open>File names\<close>

text \<open>
  The three ways \<open>parsename\<close> returns: no tag, the last component alone, or the last two
  components as an architecture after an operating system.
\<close>

lemma parsename_cases:
  obtains
    (none) "parsename name = ('''', '''')"
  | (single) a where "parsename name = (a, '''')" "lookup knownOS a \<or> lookup knownArch a"
  | (pair) a b where "parsename name = (a, b)" "lookup knownArch a" "lookup knownOS b"
proof -
  define dot where "dot = Index name ''.''"
  define nm where "nm = (if dot \<noteq> - 1 then take (nat dot) name else name)"
  define i where "i = Index nm ''_''"
  define l0 where "l0 = Split (drop (nat (i + 1)) nm) ''_''"
  define l where "l = (if length l0 > 0 \<and> l0 ! (length l0 - 1) = ''test''
                    then take (length l0 - 1) l0 else l0)"
  define n where "n = length l"
  define c1 where
    "c1 \<longleftrightarrow> n \<ge> 2 \<and> lookup knownOS (l ! (n - 2)) \<and> lookup knownArch (l ! (n - 1))"
  define c2 where
    "c2 \<longleftrightarrow> n \<ge> 1 \<and> (lookup knownOS (l ! (n - 1)) \<or> lookup knownArch (l ! (n - 1)))"
  have eq: "parsename name =
     (if i < 0 then ('''', '''')
      else if c1 then (l ! (n - 1), l ! (n - 2))
           else if c2 then (l ! (n - 1), '''')
           else ('''', ''''))"
    by (simp only: parsename_def Let_def dot_def nm_def i_def l0_def l_def n_def c1_def c2_def)
  consider "i < 0" | "\<not> i < 0" "c1" | "\<not> i < 0" "\<not> c1" "c2" | "\<not> i < 0" "\<not> c1" "\<not> c2"
    by blast
  then show thesis
  proof cases
    case 1
    with eq have "parsename name = ('''', '''')" by simp
    with none show ?thesis .
  next
    case 2
    with eq have "parsename name = (l ! (n - 1), l ! (n - 2))" by simp
    moreover from 2 have "lookup knownArch (l ! (n - 1))" "lookup knownOS (l ! (n - 2))"
      by (simp_all add: c1_def)
    ultimately show ?thesis by (rule pair)
  next
    case 3
    with eq have "parsename name = (l ! (n - 1), '''')" by simp
    moreover from 3 have "lookup knownOS (l ! (n - 1)) \<or> lookup knownArch (l ! (n - 1))"
      by (simp add: c2_def)
    ultimately show ?thesis by (rule single)
  next
    case 4
    with eq have "parsename name = ('''', '''')" by simp
    with none show ?thesis .
  qed
qed

lemma test_not_known: "\<not> lookup knownOS ''test''" "\<not> lookup knownArch ''test''"
  by (simp_all add: lookup_def knownOS_def knownArch_def)

lemma parsename_linux_amd64: "parsename ''foo_linux_amd64.go'' = (''amd64'', ''linux'')"
  by code_simp

lemma parsename_amd64_linux: "parsename ''foo_amd64_linux.go'' = (''linux'', '''')"
  by code_simp

lemma parsename_foo_test: "parsename ''foo_test.go'' = ('''', '''')"
  by code_simp

lemma parsename_linux_test: "parsename ''foo_linux_test.go'' = (''linux'', '''')"
  by code_simp

lemma parsename_underscore_linux: "parsename ''_linux.go'' = (''linux'', '''')"
  by code_simp

subsection \<open>Splitting a name at its underscores\<close>

text \<open>
  \<open>strings.Index\<close> and \<open>strings.Split\<close> for a separator of one byte: the index of
  its first instance, and the split of a string that is put together from two parts.
\<close>

lemma Index_from_absent: "c \<notin> set a \<Longrightarrow> Index_from a [c] k = - 1"
  by (induction a arbitrary: k) auto

lemma Index_from_first:
  "c \<notin> set a \<Longrightarrow> Index_from (a @ c # r) [c] k = k + int (length a)"
  by (induction a arbitrary: k) auto

lemma Index_absent: "c \<notin> set a \<Longrightarrow> Index a [c] = - 1"
  by (simp add: Index_def Index_from_absent)

lemma Index_first: "c \<notin> set a \<Longrightarrow> Index (a @ c # r) [c] = int (length a)"
  by (simp add: Index_def Index_from_first)

lemma Split_absent: "c \<notin> set a \<Longrightarrow> Split a [c] = [a]"
  by (subst Split.simps) (simp add: Index_absent)

lemma Split_first: "c \<notin> set a \<Longrightarrow> Split (a @ c # r) [c] = a # Split r [c]"
  by (subst Split.simps) (simp add: Index_first)

lemma split_at_first:
  assumes "c \<in> set s"
  obtains a r where "s = a @ c # r" "c \<notin> set a"
  using assms by (meson split_list_first)

lemma Split_append: "Split (a @ c # b) [c] = Split a [c] @ Split b [c]"
proof (induction "length a" arbitrary: a rule: less_induct)
  case less
  show ?case
  proof (cases "c \<in> set a")
    case False
    then show ?thesis by (simp add: Split_absent Split_first)
  next
    case True
    then obtain a1 a2 where a: "a = a1 @ c # a2" "c \<notin> set a1" by (rule split_at_first)
    then have "length a2 < length a" by simp
    then have "Split (a2 @ c # b) [c] = Split a2 [c] @ Split b [c]" by (rule less)
    moreover have "Split (a @ c # b) [c] = a1 # Split (a2 @ c # b) [c]"
      using Split_first [OF a(2), of "a2 @ c # b"] a(1) by simp
    moreover have "Split a [c] = a1 # Split a2 [c]"
      using Split_first [OF a(2), of a2] a(1) by simp
    ultimately show ?thesis by simp
  qed
qed

lemma Split_not_Nil: "Split s [c] \<noteq> []"
  by (subst Split.simps) simp

lemma Split_last_test:
  assumes "last (Split s ''_'') = ''test''"
  shows "s = ''test'' \<or> suffix ''_test'' s"
  using assms
proof (induction "length s" arbitrary: s rule: less_induct)
  case less
  show ?case
  proof (cases "CHR ''_'' \<in> set s")
    case False
    with less.prems show ?thesis by (simp add: Split_absent)
  next
    case True
    then obtain a r where s: "s = a @ CHR ''_'' # r" "CHR ''_'' \<notin> set a"
      by (rule split_at_first)
    then have sp: "Split s ''_'' = a # Split r ''_''" by (simp add: Split_first)
    with less.prems have "last (Split r ''_'') = ''test''" by (simp add: Split_not_Nil)
    moreover from s have "length r < length s" by simp
    ultimately have "r = ''test'' \<or> suffix ''_test'' r" by (rule less.hyps [rotated])
    then show ?thesis
    proof
      assume "r = ''test''"
      with s have "s = a @ ''_test''" by simp
      then show ?thesis by (simp add: suffix_def)
    next
      assume "suffix ''_test'' r"
      then obtain z where "r = z @ ''_test''" by (auto simp: suffix_def)
      with s have "s = (a @ CHR ''_'' # z) @ ''_test''" by simp
      then have "suffix ''_test'' s" unfolding suffix_def by blast
      then show ?thesis ..
    qed
  qed
qed

text \<open>
  \<open>parsename\<close> with its intermediate values named.
\<close>

lemma parsename_eq:
  assumes "Index name ''.'' = dot"
    and "(if dot \<noteq> - 1 then take (nat dot) name else name) = nm"
    and "Index nm ''_'' = i"
    and "Split (drop (nat (i + 1)) nm) ''_'' = l0"
    and "(if length l0 > 0 \<and> l0 ! (length l0 - 1) = ''test''
          then take (length l0 - 1) l0 else l0) = l"
  shows "parsename name =
     (if i < 0 then ('''', '''')
      else if length l \<ge> 2 \<and> lookup knownOS (l ! (length l - 2))
                \<and> lookup knownArch (l ! (length l - 1))
           then (l ! (length l - 1), l ! (length l - 2))
           else if length l \<ge> 1 \<and> (lookup knownOS (l ! (length l - 1))
                                      \<or> lookup knownArch (l ! (length l - 1)))
           then (l ! (length l - 1), '''')
           else ('''', ''''))"
  by (simp only: parsename_def Let_def assms)

text \<open>
  The known operating systems and architectures hold no underscore and no dot, none of
  them is \<open>test\<close>, and no string is both an operating system and an architecture.
\<close>

lemma lookup_map_of: "lookup (map_of xs) t \<Longrightarrow> t \<in> set (map fst xs)"
proof -
  assume "lookup (map_of xs) t"
  then obtain b where "map_of xs t = Some b" by (auto simp: lookup_def split: option.splits)
  then have "(t, b) \<in> set xs" by (rule map_of_SomeD)
  then show ?thesis by force
qed

lemma knownOS_keys_plain:
  "list_all (\<lambda>k. CHR ''_'' \<notin> set k \<and> CHR ''.'' \<notin> set k \<and> k \<noteq> ''test'' \<and> \<not> lookup knownArch k)
     [''aix'', ''android'', ''darwin'', ''dragonfly'', ''freebsd'', ''hurd'', ''illumos'',
      ''ios'', ''js'', ''linux'', ''nacl'', ''netbsd'', ''openbsd'', ''plan9'', ''solaris'',
      ''windows'', ''zos'']"
  by code_simp

lemma knownArch_keys_plain:
  "list_all (\<lambda>k. CHR ''_'' \<notin> set k \<and> CHR ''.'' \<notin> set k \<and> k \<noteq> ''test'' \<and> \<not> lookup knownOS k)
     [''386'', ''amd64'', ''amd64p32'', ''arm'', ''armbe'', ''arm64'', ''arm64be'',
      ''mips'', ''mipsle'', ''mips64'', ''mips64le'', ''mips64p32'', ''mips64p32le'', ''ppc'',
      ''ppc64'', ''ppc64le'', ''riscv'', ''riscv64'', ''s390'', ''s390x'', ''sparc'', ''sparc64'',
      ''wasm'']"
  by code_simp

lemma knownOS_plain:
  assumes "lookup knownOS t"
  shows "CHR ''_'' \<notin> set t" "CHR ''.'' \<notin> set t" "t \<noteq> ''test''" "\<not> lookup knownArch t"
proof -
  from assms have "t \<in> set (map fst
     [(''aix'', True), (''android'', True), (''darwin'', True), (''dragonfly'', True),
      (''freebsd'', True), (''hurd'', True), (''illumos'', True), (''ios'', True),
      (''js'', True), (''linux'', True), (''nacl'', True), (''netbsd'', True),
      (''openbsd'', True), (''plan9'', True), (''solaris'', True), (''windows'', True),
      (''zos'', True)])"
    unfolding knownOS_def by (rule lookup_map_of)
  then have mem: "t \<in> set [''aix'', ''android'', ''darwin'', ''dragonfly'', ''freebsd'', ''hurd'',
      ''illumos'', ''ios'', ''js'', ''linux'', ''nacl'', ''netbsd'', ''openbsd'', ''plan9'',
      ''solaris'', ''windows'', ''zos'']"
    by (simp only: list.map fst_conv)
  from knownOS_keys_plain [unfolded list_all_iff] mem
  have "CHR ''_'' \<notin> set t \<and> CHR ''.'' \<notin> set t \<and> t \<noteq> ''test'' \<and> \<not> lookup knownArch t"
    by (rule bspec)
  then show "CHR ''_'' \<notin> set t" "CHR ''.'' \<notin> set t" "t \<noteq> ''test''" "\<not> lookup knownArch t"
    by blast+
qed

lemma knownArch_plain:
  assumes "lookup knownArch t"
  shows "CHR ''_'' \<notin> set t" "CHR ''.'' \<notin> set t" "t \<noteq> ''test''" "\<not> lookup knownOS t"
proof -
  from assms have "t \<in> set (map fst
     [(''386'', True), (''amd64'', True), (''amd64p32'', True), (''arm'', True),
      (''armbe'', True), (''arm64'', True), (''arm64be'', True), (''mips'', True),
      (''mipsle'', True), (''mips64'', True), (''mips64le'', True), (''mips64p32'', True),
      (''mips64p32le'', True), (''ppc'', True), (''ppc64'', True), (''ppc64le'', True),
      (''riscv'', True), (''riscv64'', True), (''s390'', True), (''s390x'', True),
      (''sparc'', True), (''sparc64'', True), (''wasm'', True)])"
    unfolding knownArch_def by (rule lookup_map_of)
  then have mem: "t \<in> set [''386'', ''amd64'', ''amd64p32'', ''arm'', ''armbe'', ''arm64'',
      ''arm64be'', ''mips'', ''mipsle'', ''mips64'', ''mips64le'', ''mips64p32'', ''mips64p32le'',
      ''ppc'', ''ppc64'', ''ppc64le'', ''riscv'', ''riscv64'', ''s390'', ''s390x'', ''sparc'',
      ''sparc64'', ''wasm'']"
    by (simp only: list.map fst_conv)
  from knownArch_keys_plain [unfolded list_all_iff] mem
  have "CHR ''_'' \<notin> set t \<and> CHR ''.'' \<notin> set t \<and> t \<noteq> ''test'' \<and> \<not> lookup knownOS t"
    by (rule bspec)
  then show "CHR ''_'' \<notin> set t" "CHR ''.'' \<notin> set t" "t \<noteq> ''test''" "\<not> lookup knownOS t"
    by blast+
qed

lemma known_nonempty: "lookup knownOS t \<or> lookup knownArch t \<Longrightarrow> t \<noteq> ''''"
  by (auto simp: lookup_def knownOS_def knownArch_def)

subsection \<open>The order of the operating system and the architecture\<close>

text \<open>
  A name that ends, before its extension, in two components without underscore or dot,
  the last of them not \<open>test\<close>: the result depends on these two components alone.
\<close>

lemma parsename_two_components:
  assumes stem: "CHR ''.'' \<notin> set stem"
    and c1: "CHR ''_'' \<notin> set c1" "CHR ''.'' \<notin> set c1"
    and c2: "CHR ''_'' \<notin> set c2" "CHR ''.'' \<notin> set c2" "c2 \<noteq> ''test''"
  shows "parsename (stem @ ''_'' @ c1 @ ''_'' @ c2 @ ''.'' @ ext) =
     (if lookup knownOS c1 \<and> lookup knownArch c2 then (c2, c1)
      else if lookup knownOS c2 \<or> lookup knownArch c2 then (c2, '''')
      else ('''', ''''))"
proof -
  define nm where "nm = stem @ ''_'' @ c1 @ ''_'' @ c2"
  have nodot: "CHR ''.'' \<notin> set nm" using stem c1 c2 by (simp add: nm_def)
  have name: "stem @ ''_'' @ c1 @ ''_'' @ c2 @ ''.'' @ ext = nm @ CHR ''.'' # ext"
    by (simp add: nm_def)
  have dot: "Index (nm @ CHR ''.'' # ext) ''.'' = int (length nm)"
    using nodot by (rule Index_first)
  have strip: "(if int (length nm) \<noteq> - 1 then take (nat (int (length nm))) (nm @ CHR ''.'' # ext)
                else nm @ CHR ''.'' # ext) = nm"
    unfolding nat_int by simp
  have two: "Split (c1 @ CHR ''_'' # c2) ''_'' = [c1, c2]"
    using Split_append [of c1 "CHR ''_''" c2] c1 c2 by (simp add: Split_absent)
  obtain i pre where i: "Index nm ''_'' = int i"
    and sp: "Split (drop (nat (int i + 1)) nm) ''_'' = pre @ [c1, c2]"
  proof (cases "CHR ''_'' \<in> set stem")
    case False
    have "nm = stem @ CHR ''_'' # (c1 @ CHR ''_'' # c2)" by (simp add: nm_def)
    with False have "Index nm ''_'' = int (length stem)"
      using Index_first [of "CHR ''_''" stem "c1 @ CHR ''_'' # c2"] by simp
    moreover have "Split (drop (nat (int (length stem) + 1)) nm) ''_'' = [] @ [c1, c2]"
      using two by (simp add: nm_def nat_add_distrib)
    ultimately show ?thesis by (rule that)
  next
    case True
    then obtain a r where s: "stem = a @ CHR ''_'' # r" "CHR ''_'' \<notin> set a"
      by (rule split_at_first)
    have "nm = a @ CHR ''_'' # (r @ CHR ''_'' # (c1 @ CHR ''_'' # c2))"
      by (simp add: nm_def s(1))
    then have nm': "nm = a @ CHR ''_'' # (r @ CHR ''_'' # c1 @ CHR ''_'' # c2)" by simp
    have "Index nm ''_'' = int (length a)"
      unfolding nm' using s(2) by (rule Index_first)
    moreover have "Split (drop (nat (int (length a) + 1)) nm) ''_'' = Split r ''_'' @ [c1, c2]"
      using Split_append [of r "CHR ''_''" "c1 @ CHR ''_'' # c2"] two
      by (simp add: nm' nat_add_distrib)
    ultimately show ?thesis by (rule that)
  qed
  define l where "l = pre @ [c1, c2]"
  have keep: "(if length l > 0 \<and> l ! (length l - 1) = ''test''
               then take (length l - 1) l else l) = l"
    using c2(3) by (simp add: l_def nth_append)
  have n: "length l \<ge> 2" "length l \<ge> 1" "l ! (length l - 2) = c1" "l ! (length l - 1) = c2"
    by (simp_all add: l_def nth_append)
  have "parsename (nm @ CHR ''.'' # ext) =
     (if int i < 0 then ('''', '''')
      else if length l \<ge> 2 \<and> lookup knownOS (l ! (length l - 2))
                \<and> lookup knownArch (l ! (length l - 1))
           then (l ! (length l - 1), l ! (length l - 2))
           else if length l \<ge> 1 \<and> (lookup knownOS (l ! (length l - 1))
                                      \<or> lookup knownArch (l ! (length l - 1)))
           then (l ! (length l - 1), '''')
           else ('''', ''''))"
    using sp keep unfolding l_def [symmetric] by (intro parsename_eq [OF dot strip i])
  then show ?thesis unfolding name using n by simp
qed

text \<open>
  C4, as the specification has it: \<open>parsename("foo_linux_amd64.go")\<close> yields both tags
  \<open>{"amd64", "linux"}\<close>, and \<open>parsename("foo_amd64_linux.go")\<close> yields the empty set.
  The second half fails: with the architecture before the operating system the pair is
  not recognised, but the last component \<open>linux\<close> is a known operating system and the
  second test of \<open>parsename\<close> returns it alone.
\<close>

theorem parsename_wrong_order_counterexample:
  "\<not> (add_autotags {} ''foo_linux_amd64.go'' = {''amd64'', ''linux''}
      \<and> add_autotags {} ''foo_amd64_linux.go'' = {})"
  by (simp add: add_autotags_def parsename_amd64_linux add_def)

text \<open>
  C4, amended: a name that ends in a known operating system followed by a known
  architecture yields the two tags, as \<open>parsename("foo_linux_amd64.go")\<close> yields \<open>amd64\<close>
  and \<open>linux\<close>; a name that ends in the architecture followed by the operating system
  does not yield the pair, and yields the last component alone, as
  \<open>parsename("foo_amd64_linux.go")\<close> yields the single tag \<open>linux\<close>.  The stem of the name
  is any string without a dot, the extension any string.
\<close>

theorem parsename_suffix_order:
  assumes "CHR ''.'' \<notin> set stem" and "lookup knownOS os" and "lookup knownArch arch"
  shows "parsename (stem @ ''_'' @ os @ ''_'' @ arch @ ''.'' @ ext) = (arch, os)
    \<and> add_autotags tags (stem @ ''_'' @ os @ ''_'' @ arch @ ''.'' @ ext)
        = insert os (insert arch tags)
    \<and> parsename (stem @ ''_'' @ arch @ ''_'' @ os @ ''.'' @ ext) = (os, '''')
    \<and> add_autotags tags (stem @ ''_'' @ arch @ ''_'' @ os @ ''.'' @ ext) = insert os tags"
proof -
  note o = knownOS_plain [OF assms(2)] and a = knownArch_plain [OF assms(3)]
  have ne: "os \<noteq> ''''" "arch \<noteq> ''''"
    using known_nonempty [of os] known_nonempty [of arch] assms(2,3) by blast+
  have 1: "parsename (stem @ ''_'' @ os @ ''_'' @ arch @ ''.'' @ ext) = (arch, os)"
    using parsename_two_components [OF assms(1) o(1,2) a(1,2,3), of ext] assms(2,3) by simp
  have 2: "parsename (stem @ ''_'' @ arch @ ''_'' @ os @ ''.'' @ ext) = (os, '''')"
    using parsename_two_components [OF assms(1) a(1,2) o(1,2,3), of ext] assms(2) a(4) by simp
  have 3: "add_autotags tags (stem @ ''_'' @ os @ ''_'' @ arch @ ''.'' @ ext)
        = insert os (insert arch tags)"
    unfolding add_autotags_def 1 using ne by (simp add: add_def)
  have 4: "add_autotags tags (stem @ ''_'' @ arch @ ''_'' @ os @ ''.'' @ ext) = insert os tags"
    unfolding add_autotags_def 2 using ne by (simp add: add_def)
  from 1 3 2 4 show ?thesis by (intro conjI)
qed

theorem parsename_suffix_order_witness:
  "CHR ''.'' \<notin> set ''foo'' \<and> lookup knownOS ''linux'' \<and> lookup knownArch ''amd64''
   \<and> parsename ''foo_linux_amd64.go'' = (''amd64'', ''linux'')
   \<and> add_autotags {} ''foo_linux_amd64.go'' = {''linux'', ''amd64''}
   \<and> parsename ''foo_amd64_linux.go'' = (''linux'', '''')
   \<and> add_autotags {} ''foo_amd64_linux.go'' = {''linux''}"
proof -
  have h: "CHR ''.'' \<notin> set ''foo''" "lookup knownOS ''linux''" "lookup knownArch ''amd64''"
    by (simp_all add: lookup_def knownOS_def knownArch_def)
  from parsename_suffix_order [OF h, of "''go''" "{}"] h show ?thesis by simp
qed

subsection \<open>The marker of a test file\<close>

text \<open>
  A name with \<open>_test\<close> before the extension gives what the name without it gives.
\<close>

lemma parsename_test_dropped:
  assumes "CHR ''.'' \<notin> set base" and "\<not> suffix ''_test'' base"
  shows "parsename (base @ ''_test.'' @ ext) = parsename (base @ ''.'' @ ext)"
proof -
  have dot1: "Index (base @ ''_test.'' @ ext) ''.'' = int (length base + 5)"
    using Index_first [of "CHR ''.''" "base @ ''_test''" ext] assms(1) by simp
  have dot2: "Index (base @ ''.'' @ ext) ''.'' = int (length base)"
    using Index_first [of "CHR ''.''" base ext] assms(1) by simp
  have nm1: "(if int (length base + 5) \<noteq> - 1
              then take (nat (int (length base + 5))) (base @ ''_test.'' @ ext)
              else base @ ''_test.'' @ ext) = base @ ''_test''"
    unfolding nat_int by simp
  have nm2: "(if int (length base) \<noteq> - 1 then take (nat (int (length base))) (base @ ''.'' @ ext)
              else base @ ''.'' @ ext) = base"
    unfolding nat_int by simp
  show ?thesis
  proof (cases "CHR ''_'' \<in> set base")
    case False
    then have i1: "Index (base @ ''_test'') ''_'' = int (length base)"
      using Index_first [of "CHR ''_''" base "''test''"] by simp
    from False have i2: "Index base ''_'' = - 1" by (rule Index_absent)
    have sp: "Split (drop (nat (int (length base) + 1)) (base @ ''_test'')) ''_'' = [''test'']"
      by (simp add: nat_add_distrib Split_absent)
    have l: "(if length [''test''] > 0 \<and> [''test''] ! (length [''test''] - 1) = ''test''
              then take (length [''test''] - 1) [''test''] else [''test'']) = []"
      by simp
    have "parsename (base @ ''_test.'' @ ext) = ('''', '''')"
      by (subst parsename_eq [OF dot1 nm1 i1 sp l]) simp
    moreover have "parsename (base @ ''.'' @ ext) = ('''', '''')"
      by (subst parsename_eq [OF dot2 nm2 i2 refl refl]) simp
    ultimately show ?thesis by simp
  next
    case True
    then obtain a r where b: "base = a @ CHR ''_'' # r" "CHR ''_'' \<notin> set a"
      by (rule split_at_first)
    have i1: "Index (base @ ''_test'') ''_'' = int (length a)"
      using Index_first [OF b(2), of "r @ ''_test''"] b(1) by simp
    have i2: "Index base ''_'' = int (length a)"
      using Index_first [OF b(2), of r] b(1) by simp
    define l where "l = Split r ''_''"
    have sp1: "Split (drop (nat (int (length a) + 1)) (base @ ''_test'')) ''_'' = l @ [''test'']"
      using Split_append [of r "CHR ''_''" "''test''"] b(1)
      by (simp add: nat_add_distrib Split_absent l_def)
    have sp2: "Split (drop (nat (int (length a) + 1)) base) ''_'' = l"
      using b(1) by (simp add: nat_add_distrib l_def)
    have nt: "last l \<noteq> ''test''"
    proof
      assume "last l = ''test''"
      then have "r = ''test'' \<or> suffix ''_test'' r" unfolding l_def by (rule Split_last_test)
      then have "suffix ''_test'' base"
      proof
        assume "r = ''test''"
        with b(1) have "base = a @ ''_test''" by simp
        then show ?thesis by (simp add: suffix_def)
      next
        assume "suffix ''_test'' r"
        then obtain z where "r = z @ ''_test''" by (auto simp: suffix_def)
        with b(1) have "base = (a @ CHR ''_'' # z) @ ''_test''" by simp
        then show ?thesis unfolding suffix_def by blast
      qed
      with assms(2) show False by simp
    qed
    have lne: "l \<noteq> []" unfolding l_def by (rule Split_not_Nil)
    have l1: "(if length (l @ [''test'']) > 0
                  \<and> (l @ [''test'']) ! (length (l @ [''test'']) - 1) = ''test''
               then take (length (l @ [''test'']) - 1) (l @ [''test'']) else l @ [''test'']) = l"
      by simp
    have l2: "(if length l > 0 \<and> l ! (length l - 1) = ''test''
               then take (length l - 1) l else l) = l"
      using nt lne by (simp add: last_conv_nth)
    show ?thesis
      unfolding parsename_eq [OF dot1 nm1 i1 sp1 l1] parsename_eq [OF dot2 nm2 i2 sp2 l2] ..
  qed
qed

text \<open>
  C9: a last component \<open>test\<close> is dropped before the components are matched, and it is
  never a tag itself.  A name with the marker \<open>_test\<close> before its extension has the tags
  of the name without the marker (for every stem without a dot that does not itself end
  in \<open>_test\<close>, and every extension); for no file name at all is \<open>test\<close> one of the two
  tags returned; \<open>parsename("foo_test.go")\<close> yields no tag and
  \<open>parsename("foo_linux_test.go")\<close> yields \<open>linux\<close> alone.
\<close>

theorem parsename_test_marker:
  "(CHR ''.'' \<notin> set base \<and> \<not> suffix ''_test'' base
      \<longrightarrow> parsename (base @ ''_test.'' @ ext) = parsename (base @ ''.'' @ ext))
   \<and> fst (parsename name) \<noteq> ''test'' \<and> snd (parsename name) \<noteq> ''test''
   \<and> parsename ''foo_test.go'' = ('''', '''')
   \<and> add_autotags {} ''foo_test.go'' = {}
   \<and> parsename ''foo_linux_test.go'' = (''linux'', '''')
   \<and> add_autotags {} ''foo_linux_test.go'' = {''linux''}"
proof -
  have 1: "CHR ''.'' \<notin> set base \<and> \<not> suffix ''_test'' base
      \<longrightarrow> parsename (base @ ''_test.'' @ ext) = parsename (base @ ''.'' @ ext)"
    using parsename_test_dropped [of base ext] by blast
  have 2: "fst (parsename name) \<noteq> ''test'' \<and> snd (parsename name) \<noteq> ''test''"
    by (cases name rule: parsename_cases) (use test_not_known in auto)
  have 3: "add_autotags {} ''foo_test.go'' = {}"
    by (simp add: add_autotags_def parsename_foo_test)
  have 4: "add_autotags {} ''foo_linux_test.go'' = {''linux''}"
    by (simp add: add_autotags_def parsename_linux_test add_def)
  from 1 2 parsename_foo_test 3 parsename_linux_test 4 show ?thesis by (intro conjI) blast+
qed

lemma foo_linux_no_test_suffix: "\<not> suffix ''_test'' ''foo_linux''"
  by code_simp

theorem parsename_test_marker_witness:
  "CHR ''.'' \<notin> set ''foo_linux'' \<and> \<not> suffix ''_test'' ''foo_linux''
   \<and> parsename ''foo_linux_test.go'' = parsename ''foo_linux.go''
   \<and> parsename ''foo_linux_test.go'' = (''linux'', '''')"
proof -
  have h: "CHR ''.'' \<notin> set ''foo_linux'' \<and> \<not> suffix ''_test'' ''foo_linux''"
    using foo_linux_no_test_suffix by simp
  from parsename_test_marker [of "''foo_linux''" "''go''" "''x''"] h
  have "parsename (''foo_linux'' @ ''_test.'' @ ''go'') = parsename (''foo_linux'' @ ''.'' @ ''go'')"
    by blast
  then have e: "parsename ''foo_linux_test.go'' = parsename ''foo_linux.go''" by simp
  from h e parsename_linux_test show ?thesis by blast
qed

subsection \<open>The tag set only grows\<close>

lemma addtags_mono: "tags \<subseteq> addtags tags e"
  by (induction tags e rule: addtags.induct) (auto simp: add_def)

lemma parsetags_loop_mono: "tags \<subseteq> fst (parsetags_loop C tags ls)"
proof (induction ls arbitrary: tags)
  case Nil
  then show ?case by simp
next
  case (Cons l ls)
  show ?case
  proof (cases "isBuildLine C l")
    case False
    with Cons show ?thesis by simp
  next
    case True
    show ?thesis
    proof (cases "Parse C l")
      case (Inl e)
      with True show ?thesis by simp
    next
      case (Inr expr)
      have "tags \<subseteq> addtags tags expr" by (rule addtags_mono)
      also have "\<dots> \<subseteq> fst (parsetags_loop C (addtags tags expr) ls)" by (rule Cons.IH)
      finally show ?thesis using True Inr by simp
    qed
  qed
qed

lemma parsetags_mono: "tags \<subseteq> fst (parsetags C tags header)"
proof -
  obtain ls e where sc: "scan_lines header = (ls, e)" by (cases "scan_lines header")
  obtain t r where lp: "parsetags_loop C tags ls = (t, r)" by (cases "parsetags_loop C tags ls")
  have "tags \<subseteq> fst (parsetags_loop C tags ls)" by (rule parsetags_loop_mono)
  with lp have "tags \<subseteq> t" by simp
  moreover have "fst (parsetags C tags header) = t"
    by (simp add: parsetags_def sc lp split: option.splits)
  ultimately show ?thesis by simp
qed

lemma parse_mono: "add_autotags tags name \<subseteq> fst (parse C W tags dir name)"
proof (cases "parseheader W (Join W dir name)")
  case (Inl e)
  then show ?thesis by (simp add: parse_def)
next
  case (Inr header)
  obtain t r where pt: "parsetags C (add_autotags tags name) header = (t, r)"
    by (cases "parsetags C (add_autotags tags name) header")
  have "add_autotags tags name \<subseteq> fst (parsetags C (add_autotags tags name) header)"
    by (rule parsetags_mono)
  with pt have "add_autotags tags name \<subseteq> t" by simp
  with Inr pt show ?thesis by (simp add: parse_def split: option.splits)
qed

lemma parsename_underscore_first:
  assumes "lookup knownOS t \<or> lookup knownArch t"
  shows "parsename (''_'' @ t @ ''.'' @ ext) = (t, '''')"
proof -
  from assms have plain: "CHR ''_'' \<notin> set t" "CHR ''.'' \<notin> set t" "t \<noteq> ''test''"
    using knownOS_plain(1-3) knownArch_plain(1-3) by blast+
  define nm where "nm = CHR ''_'' # t"
  have name: "''_'' @ t @ ''.'' @ ext = nm @ CHR ''.'' # ext" by (simp add: nm_def)
  have "CHR ''.'' \<notin> set nm" using plain(2) by (simp add: nm_def)
  then have dot: "Index (nm @ CHR ''.'' # ext) ''.'' = int (length nm)" by (rule Index_first)
  have strip: "(if int (length nm) \<noteq> - 1 then take (nat (int (length nm))) (nm @ CHR ''.'' # ext)
                else nm @ CHR ''.'' # ext) = nm"
    unfolding nat_int by simp
  have i: "Index nm ''_'' = int 0"
    using Index_first [of "CHR ''_''" "[]" t] by (simp add: nm_def)
  have sp: "Split (drop (nat (int 0 + 1)) nm) ''_'' = [t]"
    using plain(1) by (simp add: nm_def Split_absent)
  have keep: "(if length [t] > 0 \<and> [t] ! (length [t] - 1) = ''test''
               then take (length [t] - 1) [t] else [t]) = [t]"
    using plain(3) by simp
  show ?thesis
    unfolding name parsename_eq [OF dot strip i sp keep] using assms by simp
qed

text \<open>
  C10: a file whose name begins with an underscore still gives its tags.  For every known
  operating system or architecture \<open>t\<close>, \<open>parsename\<close> of \<open>_t\<close> with any extension yields
  \<open>t\<close>, and \<open>parse\<close> puts it into the tag set, whatever the header of the file and whether
  or not the header can be read; \<open>parsename("_linux.go")\<close> yields \<open>linux\<close>, and \<open>readdir\<close>
  keeps such a file in the list of the directory.
\<close>

theorem leading_underscore_not_ignored:
  "(lookup knownOS t \<or> lookup knownArch t
      \<longrightarrow> parsename (''_'' @ t @ ''.'' @ ext) = (t, '''')
        \<and> t \<in> fst (parse C W tags dir (''_'' @ t @ ''.'' @ ext)))
   \<and> parsename ''_linux.go'' = (''linux'', '''')
   \<and> readdir_loop [\<lparr>Name = ''_linux.go'', Type = 0\<rparr>] [] = [''_linux.go'']
   \<and> ''linux'' \<in> fst (parse C W tags dir ''_linux.go'')"
proof -
  have 1: "lookup knownOS t \<or> lookup knownArch t
      \<longrightarrow> parsename (''_'' @ t @ ''.'' @ ext) = (t, '''')
        \<and> t \<in> fst (parse C W tags dir (''_'' @ t @ ''.'' @ ext))"
  proof
    assume k: "lookup knownOS t \<or> lookup knownArch t"
    then have p: "parsename (''_'' @ t @ ''.'' @ ext) = (t, '''')"
      by (rule parsename_underscore_first)
    from k have "t \<noteq> ''''" by (rule known_nonempty)
    then have "t \<in> add_autotags tags (''_'' @ t @ ''.'' @ ext)"
      unfolding add_autotags_def p by (simp add: add_def)
    with parse_mono [of tags "''_'' @ t @ ''.'' @ ext" C W dir]
    have "t \<in> fst (parse C W tags dir (''_'' @ t @ ''.'' @ ext))" by blast
    with p show "parsename (''_'' @ t @ ''.'' @ ext) = (t, '''')
        \<and> t \<in> fst (parse C W tags dir (''_'' @ t @ ''.'' @ ext))" ..
  qed
  have "''linux'' \<in> add_autotags tags ''_linux.go''"
    by (simp add: add_autotags_def parsename_underscore_linux add_def)
  with parse_mono [of tags "''_linux.go''" C W dir]
  have 4: "''linux'' \<in> fst (parse C W tags dir ''_linux.go'')" by blast
  have 3: "readdir_loop [\<lparr>Name = ''_linux.go'', Type = 0\<rparr>] [] = [''_linux.go'']"
    by (simp add: Ext_def)
  from 1 parsename_underscore_linux 3 4 show ?thesis by (intro conjI)
qed

theorem leading_underscore_not_ignored_witness:
  "(lookup knownOS ''linux'' \<or> lookup knownArch ''linux'')
   \<and> parsename ''_linux.go'' = (''linux'', '''')
   \<and> ''linux'' \<in> fst (parse go_build_constraint sample_world {} ''/src/good'' ''_linux.go'')"
proof -
  have h: "lookup knownOS ''linux'' \<or> lookup knownArch ''linux''"
    by (simp add: lookup_def knownOS_def)
  from leading_underscore_not_ignored
    [of "''linux''" "''go''" go_build_constraint sample_world "{}" "''/src/good''"] h
  show ?thesis by simp
qed

subsection \<open>The walk over a constraint expression\<close>

text \<open>
  C3: applied to a conjunction, \<open>addtags\<close> adds no tag, neither from the node nor from
  anything below it: the tag set is returned as it was given.  On any expression, what it
  adds is the atoms that are not below a conjunction.
\<close>

theorem addtags_conjunction_unchanged:
  "addtags tags (AndExpr x y) = tags \<and> addtags tags e = tags \<union> outside_and e"
proof -
  have "addtags tags e = tags \<union> outside_and e"
    by (induction tags e rule: addtags.induct) (auto simp: add_def)
  then show ?thesis by simp
qed

text \<open>
  What the walk does collect: never anything but atoms of the expression, and all of them
  when no conjunction occurs in it.
\<close>

lemma addtags_subset_atoms: "addtags tags e \<subseteq> tags \<union> atoms e"
  by (induction tags e rule: addtags.induct) (auto simp: add_def)

lemma addtags_and_free: "and_free e \<Longrightarrow> addtags tags e = tags \<union> atoms e"
  by (induction tags e rule: addtags.induct) (auto simp: add_def)

lemma scan_go_build_line:
  "scan_lines (''//go:build (linux || darwin) && !cgo'' @ [CHR 0x0A])
     = ([''//go:build (linux || darwin) && !cgo''], None)"
  by (simp add: scan_lines.simps MaxScanTokenSize_def dropCR_def)

lemma scan_plus_build_line:
  "scan_lines (''// +build linux,!cgo darwin'' @ [CHR 0x0A])
     = ([''// +build linux,!cgo darwin''], None)"
  by (simp add: scan_lines.simps MaxScanTokenSize_def dropCR_def)

lemma go_build_line_parse:
  "constraint_Parse ''//go:build (linux || darwin) && !cgo''
     = Inr (AndExpr (OrExpr (TagExpr ''linux'') (TagExpr ''darwin'')) (NotExpr (TagExpr ''cgo'')))"
  by code_simp

lemma go_build_line_is: "constraint_IsGoBuild ''//go:build (linux || darwin) && !cgo''"
  by code_simp

lemma plus_build_line_parse:
  "constraint_Parse ''// +build linux,!cgo darwin''
     = Inr (OrExpr (AndExpr (TagExpr ''linux'') (NotExpr (TagExpr ''cgo''))) (TagExpr ''darwin''))"
  by code_simp

lemma plus_build_line_is: "constraint_IsPlusBuild ''// +build linux,!cgo darwin''"
  by code_simp

text \<open>
  C1 says that the walk adds the atoms of the whole tree, through conjunctions too, and
  that the line \<open>//go:build (linux || darwin) && !cgo\<close> gives \<open>linux\<close>, \<open>darwin\<close> and
  \<open>cgo\<close>.  The program does not do that.  The line parses to a conjunction of
  \<open>linux || darwin\<close> and \<open>!cgo\<close>, whose atoms are these three tags; \<open>parsetags\<close> on a
  header that consists of the line returns the tag set it was given, with no error: on
  the empty set, the empty set.
\<close>

theorem go_build_conjunction_not_walked:
  assumes "isBuildLine C ''//go:build (linux || darwin) && !cgo''"
    and "Parse C ''//go:build (linux || darwin) && !cgo''
           = Inr (AndExpr (OrExpr (TagExpr ''linux'') (TagExpr ''darwin''))
                          (NotExpr (TagExpr ''cgo'')))"
  shows "parsetags C tags (''//go:build (linux || darwin) && !cgo'' @ [CHR 0x0A]) = (tags, None)
    \<and> atoms (AndExpr (OrExpr (TagExpr ''linux'') (TagExpr ''darwin''))
                       (NotExpr (TagExpr ''cgo''))) = {''linux'', ''darwin'', ''cgo''}"
  using assms unfolding parsetags_def scan_go_build_line by (simp add: insert_commute)

theorem go_build_conjunction_not_walked_witness:
  "isBuildLine go_build_constraint ''//go:build (linux || darwin) && !cgo''
   \<and> Parse go_build_constraint ''//go:build (linux || darwin) && !cgo''
       = Inr (AndExpr (OrExpr (TagExpr ''linux'') (TagExpr ''darwin'')) (NotExpr (TagExpr ''cgo'')))
   \<and> parsetags go_build_constraint {} (''//go:build (linux || darwin) && !cgo'' @ [CHR 0x0A])
       = ({}, None)"
proof -
  have a: "isBuildLine go_build_constraint ''//go:build (linux || darwin) && !cgo''"
    by (simp add: isBuildLine_def go_build_constraint_def go_build_line_is)
  have b: "Parse go_build_constraint ''//go:build (linux || darwin) && !cgo''
       = Inr (AndExpr (OrExpr (TagExpr ''linux'') (TagExpr ''darwin'')) (NotExpr (TagExpr ''cgo'')))"
    by (simp add: go_build_constraint_def go_build_line_parse)
  from go_build_conjunction_not_walked [OF a b, of "{}"] a b show ?thesis by simp
qed

text \<open>
  C2 says that the line \<open>// +build linux,!cgo darwin\<close> gives \<open>linux\<close>, \<open>cgo\<close> and
  \<open>darwin\<close>.  The program does not do that either.  The line parses to the disjunction of
  the conjunction \<open>linux && !cgo\<close> and of \<open>darwin\<close>; the walk enters the disjunction,
  adds \<open>darwin\<close> and leaves the conjunction alone: \<open>parsetags\<close> on a header that consists
  of the line adds \<open>darwin\<close> to the tag set and nothing else, so that from the empty set it
  returns \<open>{"darwin"}\<close>, which is not the set of the three atoms.
\<close>

theorem plus_build_conjunction_not_walked:
  assumes "isBuildLine C ''// +build linux,!cgo darwin''"
    and "Parse C ''// +build linux,!cgo darwin''
           = Inr (OrExpr (AndExpr (TagExpr ''linux'') (NotExpr (TagExpr ''cgo'')))
                         (TagExpr ''darwin''))"
  shows "parsetags C tags (''// +build linux,!cgo darwin'' @ [CHR 0x0A])
           = (insert ''darwin'' tags, None)
    \<and> atoms (OrExpr (AndExpr (TagExpr ''linux'') (NotExpr (TagExpr ''cgo'')))
                      (TagExpr ''darwin'')) = {''linux'', ''cgo'', ''darwin''}
    \<and> insert ''darwin'' {} \<noteq> {''linux'', ''cgo'', ''darwin''}"
  using assms unfolding parsetags_def scan_plus_build_line
  by (simp add: add_def insert_commute)

theorem plus_build_conjunction_not_walked_witness:
  "isBuildLine go_build_constraint ''// +build linux,!cgo darwin''
   \<and> Parse go_build_constraint ''// +build linux,!cgo darwin''
       = Inr (OrExpr (AndExpr (TagExpr ''linux'') (NotExpr (TagExpr ''cgo''))) (TagExpr ''darwin''))
   \<and> parsetags go_build_constraint {} (''// +build linux,!cgo darwin'' @ [CHR 0x0A])
       = ({''darwin''}, None)"
proof -
  have a: "isBuildLine go_build_constraint ''// +build linux,!cgo darwin''"
    by (simp add: isBuildLine_def go_build_constraint_def plus_build_line_is)
  have b: "Parse go_build_constraint ''// +build linux,!cgo darwin''
       = Inr (OrExpr (AndExpr (TagExpr ''linux'') (NotExpr (TagExpr ''cgo''))) (TagExpr ''darwin''))"
    by (simp add: go_build_constraint_def plus_build_line_parse)
  from plus_build_conjunction_not_walked [OF a b, of "{}"] a b show ?thesis by simp
qed

subsection \<open>A constraint line that does not parse\<close>

text \<open>
  The scanner gives every line of the header unless a line is too long for its buffer, and
  then it reports an error.
\<close>

lemma scan_lines_text_lines:
  "snd (scan_lines data) = None \<Longrightarrow> fst (scan_lines data) = text_lines data"
proof (induction data rule: scan_lines.induct)
  case (1 data)
  show ?case
  proof (cases "data = []")
    case True
    then show ?thesis by (simp add: scan_lines.simps text_lines.simps)
  next
    case False
    define line where "line = takeWhile (\<lambda>c. c \<noteq> CHR 0x0A) data"
    define rest where "rest = drop (length line + 1) data"
    from "1.prems" False have short: "\<not> MaxScanTokenSize \<le> length line"
      by (auto simp: scan_lines.simps [of data] line_def split: if_splits)
    obtain ts e where r: "scan_lines rest = (ts, e)" by (cases "scan_lines rest")
    from False short r have eq: "scan_lines data = (dropCR line # ts, e)"
      by (simp add: scan_lines.simps [of data] line_def rest_def)
    with "1.prems" have "e = None" by simp
    with "1.IH" [OF False] short r have "ts = text_lines rest"
      by (simp add: line_def rest_def)
    with eq False show ?thesis
      by (simp add: text_lines.simps [of data] line_def rest_def)
  qed
qed

lemma parsetags_loop_error:
  assumes "line \<in> set ls" "isBuildLine C line" "Parse C line = Inl e"
  shows "\<exists>err. snd (parsetags_loop C tags ls) = Some (Errorf ''parsetags'' err)"
  using assms
proof (induction ls arbitrary: tags)
  case Nil
  then show ?case by simp
next
  case (Cons l ls)
  show ?case
  proof (cases "l = line")
    case True
    with Cons.prems show ?thesis by simp
  next
    case False
    with Cons.prems have "line \<in> set ls" by simp
    from Cons.IH [OF this Cons.prems(2,3)]
    show ?thesis by (cases "Parse C l") auto
  qed
qed

lemma parsetags_error:
  assumes "line \<in> set (text_lines header)" "isBuildLine C line" "Parse C line = Inl e"
  shows "\<exists>err. snd (parsetags C tags header) = Some err"
proof -
  obtain ls se where sc: "scan_lines header = (ls, se)" by (cases "scan_lines header")
  obtain t r where lp: "parsetags_loop C tags ls = (t, r)" by (cases "parsetags_loop C tags ls")
  show ?thesis
  proof (cases se)
    case (Some err)
    with sc lp show ?thesis by (cases r) (simp_all add: parsetags_def)
  next
    case None
    with sc scan_lines_text_lines [of header] have "ls = text_lines header" by simp
    with assms have "line \<in> set ls" by simp
    from parsetags_loop_error [OF this assms(2,3), of tags] lp obtain err where "r = Some err"
      by auto
    with sc lp show ?thesis by (simp add: parsetags_def)
  qed
qed

lemma parse_error:
  assumes "parseheader W (Join W dir name) = Inr header"
    and "line \<in> set (text_lines header)" "isBuildLine C line" "Parse C line = Inl e"
  shows "\<exists>err. snd (parse C W tags dir name) = Some err"
proof -
  obtain t r where pt: "parsetags C (add_autotags tags name) header = (t, r)"
    by (cases "parsetags C (add_autotags tags name) header")
  from parsetags_error [OF assms(2-4), of "add_autotags tags name"] pt
  obtain err where "r = Some err" by auto
  with assms(1) pt show ?thesis by (simp add: parse_def)
qed

lemma parse_files_error:
  assumes "name \<in> set gofiles" and "\<And>tags. \<exists>err. snd (parse C W tags dir name) = Some err"
  shows "\<exists>err. snd (parse_files C W tags dir gofiles) = Some err"
  using assms(1)
proof (induction gofiles arbitrary: tags)
  case Nil
  then show ?case by simp
next
  case (Cons f fs)
  obtain t r where p: "parse C W tags dir f = (t, r)" by (cases "parse C W tags dir f")
  show ?case
  proof (cases r)
    case (Some err)
    with p show ?thesis by simp
  next
    case None
    with p assms(2) have "f \<noteq> name" by (metis option.distinct(1) snd_conv)
    with Cons.prems have "name \<in> set fs" by simp
    from Cons.IH [OF this, of t] p None show ?thesis by simp
  qed
qed

lemma parse_dirs_error:
  assumes "dir \<in> set directories" "readdir W dir = Inr gofiles"
    and "\<And>tags. \<exists>err. snd (parse_files C W tags dir gofiles) = Some err"
  shows "\<exists>err. snd (parse_dirs C W tags directories) = Some err"
  using assms(1)
proof (induction directories arbitrary: tags)
  case Nil
  then show ?case by simp
next
  case (Cons d ds)
  show ?case
  proof (cases "readdir W d")
    case (Inl err)
    then show ?thesis by simp
  next
    case (Inr fs)
    obtain t r where p: "parse_files C W tags d fs = (t, r)"
      by (cases "parse_files C W tags d fs")
    show ?thesis
    proof (cases r)
      case (Some err)
      with Inr p show ?thesis by simp
    next
      case None
      with p Inr assms(2,3) have "d \<noteq> dir" by (metis option.distinct(1) snd_conv sum.inject(2))
      with Cons.prems have "dir \<in> set ds" by simp
      from Cons.IH [OF this, of t] Inr p None show ?thesis by simp
    qed
  qed
qed

lemma run_error_no_output:
  "snd (parse_dirs C W {} directories) = Some err \<Longrightarrow> run C W directories = ([], Some err)"
  by (cases "parse_dirs C W {} directories") (simp add: run_def)

text \<open>
  C8: when a constraint line of the header of a file does not parse, \<open>parsetags\<close> returns
  an error, \<open>parse\<close> returns an error for the file, and \<open>run\<close> on any list of directories
  that holds the file returns an error and prints none of its five lines.
\<close>

theorem malformed_directive_aborts_run:
  assumes "dir \<in> set directories" "readdir W dir = Inr gofiles" "name \<in> set gofiles"
    and "parseheader W (Join W dir name) = Inr header"
    and "line \<in> set (text_lines header)" "isBuildLine C line" "Parse C line = Inl e"
  shows "(\<exists>err. snd (parsetags C tags header) = Some err)
    \<and> (\<exists>err. snd (parse C W tags dir name) = Some err)
    \<and> (\<exists>err. run C W directories = ([], Some err))"
proof -
  have a: "\<exists>err. snd (parsetags C tags header) = Some err"
    using assms(5-7) by (rule parsetags_error)
  have b: "\<exists>err. snd (parse C W t dir name) = Some err" for t
    using assms(4-7) by (rule parse_error)
  have "\<exists>err. snd (parse_files C W t dir gofiles) = Some err" for t
    using assms(3) b by (rule parse_files_error)
  with assms(1,2) have "\<exists>err. snd (parse_dirs C W {} directories) = Some err"
    by (rule parse_dirs_error)
  then obtain err where "run C W directories = ([], Some err)"
    by (auto dest: run_error_no_output)
  with a b show ?thesis by blast
qed

lemma sample_readdir: "readdir sample_world ''/src/bad'' = Inr [''bad.go'']"
  by code_simp
lemma sample_header: "parseheader sample_world (Join sample_world ''/src/bad'' ''bad.go'')
   = Inr (''//go:build linux &&'' @ [CHR 0x0A, CHR 0x0A])"
  by code_simp
lemma sample_text_lines: "text_lines (''//go:build linux &&'' @ [CHR 0x0A, CHR 0x0A]) = [''//go:build linux &&'', '''']"
  by (simp add: text_lines.simps dropCR_def)
lemma sample_line_is: "isBuildLine go_build_constraint ''//go:build linux &&''"
  by code_simp
lemma sample_line_parse: "Parse go_build_constraint ''//go:build linux &&'' = Inl (SyntaxError 8 ''unexpected end of expression'')"
  by code_simp
theorem malformed_directive_aborts_run_witness:
  "\<exists>err. run go_build_constraint sample_world [''/src/good'', ''/src/bad''] = ([], Some err)"
proof -
  have "''/src/bad'' \<in> set [''/src/good'', ''/src/bad'']" by simp
  moreover have "''bad.go'' \<in> set [''bad.go'']" by simp
  moreover have "''//go:build linux &&'' \<in> set (text_lines (''//go:build linux &&'' @ [CHR 0x0A, CHR 0x0A]))"
    unfolding sample_text_lines by simp
  ultimately show ?thesis
    using malformed_directive_aborts_run [OF _ sample_readdir _ sample_header _ sample_line_is sample_line_parse] by blast
qed

subsection \<open>The categories\<close>

text \<open>
  What each of the five sets holds after the loop over the keys, whatever the order of
  the keys.
\<close>

lemma categorize_loop_goos:
  "goos (categorize_loop keys b) = goos b \<union> {t \<in> set keys. lookup knownOS t}"
  by (induction keys arbitrary: b) (auto simp: categorize_tag_def add_def)

lemma categorize_loop_goarch:
  "goarch (categorize_loop keys b)
     = goarch b \<union> {t \<in> set keys. \<not> lookup knownOS t \<and> lookup knownArch t}"
  by (induction keys arbitrary: b) (auto simp: categorize_tag_def add_def)

lemma categorize_loop_release:
  "release (categorize_loop keys b)
     = release b \<union> {t \<in> set keys. \<not> lookup knownOS t \<and> \<not> lookup knownArch t
                                   \<and> lookup knownReleaseTag t}"
  by (induction keys arbitrary: b) (auto simp: categorize_tag_def add_def)

lemma categorize_loop_special:
  "special (categorize_loop keys b)
     = special b \<union> {t \<in> set keys. \<not> lookup knownOS t \<and> \<not> lookup knownArch t
                                   \<and> \<not> lookup knownReleaseTag t \<and> lookup knownSpecialTag t}"
  by (induction keys arbitrary: b) (auto simp: categorize_tag_def add_def)

lemma categorize_loop_build:
  "build (categorize_loop keys b)
     = build b \<union> {t \<in> set keys. \<not> lookup knownOS t \<and> \<not> lookup knownArch t
                                   \<and> \<not> lookup knownReleaseTag t \<and> \<not> lookup knownSpecialTag t}"
  by (induction keys arbitrary: b) (auto simp: categorize_tag_def add_def)

lemmas categorize_loop_buckets =
  categorize_loop_goos categorize_loop_goarch categorize_loop_release
  categorize_loop_special categorize_loop_build

lemma categorize_loop_more: "buckets.more (categorize_loop keys b) = buckets.more b"
  by (induction keys arbitrary: b) (auto simp: categorize_tag_def)

lemma categorize_loop_order:
  assumes "set keys = set keys'"
  shows "categorize_loop keys b = categorize_loop keys' b"
  by (rule buckets.equality) (simp_all add: categorize_loop_buckets categorize_loop_more assms)

lemma range_keys_set: "finite tags \<Longrightarrow> set (range_keys tags) = tags"
  by (simp add: range_keys_def)

subsection \<open>The release tags\<close>

text \<open>
  The decimal digits that \<open>strconv.Itoa\<close> writes denote the number they were written
  for, so two numbers never give the same tag.
\<close>

lemma decimal_snoc: "decimal (cs @ [c]) = 10 * decimal cs + (of_char c - 48)"
  by (induction cs) (simp_all add: algebra_simps)

lemma decimal_digits: "decimal (digits n) = n"
proof (induction n rule: digits.induct)
  case (1 n)
  show ?case
  proof (cases "n < 10")
    case True
    then show ?thesis by (simp add: digits.simps [of n])
  next
    case False
    have "n mod 10 < 10" by simp
    then have "of_char (char_of (48 + n mod 10)) = (48 + n mod 10 :: nat)"
      by simp
    with False "1.IH" show ?thesis
      by (simp add: digits.simps [of n] decimal_snoc)
  qed
qed

lemma Itoa_256: "0 \<le> n \<Longrightarrow> Itoa n = ''256'' \<Longrightarrow> n = 256"
proof -
  assume n: "0 \<le> n" and eq: "Itoa n = ''256''"
  from n eq have "digits (nat n) = ''256''" by (simp add: Itoa_def)
  then have "decimal (digits (nat n)) = decimal ''256''" by simp
  then have "nat n = 256" by (simp add: decimal_digits)
  with n show ?thesis by simp
qed

lemma lookup_upd_True: "lookup (m(k \<mapsto> True)) t \<longleftrightarrow> t = k \<or> lookup m t"
  by (simp add: lookup_def)

lemma init_loop_dom:
  "dom (init_loop i m) = dom m \<union> {t. \<exists>n. i \<le> n \<and> n < 256 \<and> t = ''go1.'' @ Itoa n}"
proof (induction i m rule: init_loop.induct)
  case (1 i m)
  show ?case
  proof (cases "i < 256")
    case False
    then show ?thesis by (auto simp: init_loop.simps [of i m])
  next
    case True
    have split: "(\<exists>n. i \<le> n \<and> n < 256 \<and> t = ''go1.'' @ Itoa n)
        \<longleftrightarrow> t = ''go1.'' @ Itoa i \<or> (\<exists>n. i + 1 \<le> n \<and> n < 256 \<and> t = ''go1.'' @ Itoa n)" for t
    proof
      assume "\<exists>n. i \<le> n \<and> n < 256 \<and> t = ''go1.'' @ Itoa n"
      then obtain n where n: "i \<le> n" "n < 256" "t = ''go1.'' @ Itoa n" by blast
      show "t = ''go1.'' @ Itoa i \<or> (\<exists>n. i + 1 \<le> n \<and> n < 256 \<and> t = ''go1.'' @ Itoa n)"
      proof (cases "n = i")
        case True
        with n show ?thesis by simp
      next
        case False
        with n have "i + 1 \<le> n" by simp
        with n show ?thesis by blast
      qed
    next
      assume "t = ''go1.'' @ Itoa i \<or> (\<exists>n. i + 1 \<le> n \<and> n < 256 \<and> t = ''go1.'' @ Itoa n)"
      then show "\<exists>n. i \<le> n \<and> n < 256 \<and> t = ''go1.'' @ Itoa n"
      proof
        assume "t = ''go1.'' @ Itoa i"
        with True show ?thesis by blast
      next
        assume "\<exists>n. i + 1 \<le> n \<and> n < 256 \<and> t = ''go1.'' @ Itoa n"
        then obtain n where "i + 1 \<le> n" "n < 256" "t = ''go1.'' @ Itoa n" by blast
        then have "i \<le> n \<and> n < 256 \<and> t = ''go1.'' @ Itoa n" by simp
        then show ?thesis ..
      qed
    qed
    define m' where "m' = m(''go1.'' @ Itoa i \<mapsto> True)"
    from True have unf: "init_loop i m = init_loop (i + 1) m'"
      unfolding m'_def by (subst init_loop.simps) simp
    have IH: "dom (init_loop (i + 1) m')
        = dom m' \<union> {t. \<exists>n. i + 1 \<le> n \<and> n < 256 \<and> t = ''go1.'' @ Itoa n}"
      unfolding m'_def by (rule "1.IH" [OF True])
    have d: "dom m' = insert (''go1.'' @ Itoa i) (dom m)"
      unfolding m'_def by simp
    have "dom (init_loop i m)
        = insert (''go1.'' @ Itoa i) (dom m) \<union> {t. \<exists>n. i + 1 \<le> n \<and> n < 256 \<and> t = ''go1.'' @ Itoa n}"
      unfolding unf IH d ..
    also have "\<dots> = dom m \<union> {t. \<exists>n. i \<le> n \<and> n < 256 \<and> t = ''go1.'' @ Itoa n}"
      using split by blast
    finally show ?thesis .
  qed
qed

lemma init_loop_True:
  "(\<forall>k v. m k = Some v \<longrightarrow> v) \<Longrightarrow> init_loop i m t = Some v \<Longrightarrow> v"
proof (induction i m rule: init_loop.induct)
  case (1 i m)
  show ?case
  proof (cases "i < 256")
    case False
    with "1.prems" show ?thesis by (auto simp: init_loop.simps [of i m])
  next
    case True
    define m' where "m' = m(''go1.'' @ Itoa i \<mapsto> True)"
    from "1.prems"(1) have "\<forall>k v. m' k = Some v \<longrightarrow> v"
      unfolding m'_def by (auto simp: fun_upd_def)
    moreover from True "1.prems"(2) have "init_loop (i + 1) m' t = Some v"
      unfolding m'_def by (subst (asm) init_loop.simps) simp
    ultimately show ?thesis using "1.IH" [OF True] unfolding m'_def by blast
  qed
qed

lemma knownReleaseTag_dom:
  "t \<in> dom knownReleaseTag \<longleftrightarrow> t = ''go1'' \<or> (\<exists>n. 1 \<le> n \<and> n \<le> 255 \<and> t = ''go1.'' @ Itoa n)"
proof -
  have "dom knownReleaseTag_decl = {''go1''}" by (auto simp: knownReleaseTag_decl_def split: if_splits)
  moreover have "(n < 256) = (n \<le> 255)" for n :: int by auto
  ultimately show ?thesis
    unfolding knownReleaseTag_def init_loop_dom by auto
qed

lemma knownReleaseTag_lookup: "lookup knownReleaseTag t \<longleftrightarrow> t \<in> dom knownReleaseTag"
proof -
  have "\<forall>k v. knownReleaseTag_decl k = Some v \<longrightarrow> v"
    by (simp add: knownReleaseTag_decl_def)
  then have "knownReleaseTag t = Some v \<Longrightarrow> v" for v
    unfolding knownReleaseTag_def by (rule init_loop_True)
  then show ?thesis by (auto simp: lookup_def split: option.splits)
qed

lemma go1_not_platform:
  "\<not> lookup knownOS (''go1'' @ x)" "\<not> lookup knownArch (''go1'' @ x)"
  by (simp_all add: lookup_def knownOS_def knownArch_def)

lemma go1_256_not_special: "\<not> lookup knownSpecialTag ''go1.256''"
  by (simp add: lookup_def knownSpecialTag_def)

lemma go1_256_not_release: "''go1.256'' \<notin> dom knownReleaseTag"
proof
  assume "''go1.256'' \<in> dom knownReleaseTag"
  then obtain n where n: "1 \<le> n" "n \<le> 255" "''go1.256'' = ''go1.'' @ Itoa n"
    unfolding knownReleaseTag_dom by auto
  then have "Itoa n = ''256''" by simp
  with n(1) have "n = 256" by (intro Itoa_256) simp_all
  with n(2) show False by simp
qed

text \<open>
  C5: the keys of \<open>knownReleaseTag\<close> are \<open>go1\<close> and \<open>go1.N\<close> for every \<open>N\<close> from 1 to
  255, and nothing else; each of them maps to \<open>true\<close>, and each of them that is among the
  tags goes to the release set.  \<open>go1.256\<close> is not a key: it never goes to the release
  set, and goes to the set of plain build tags.
\<close>

theorem release_tag_registry:
  "(t \<in> dom knownReleaseTag
      \<longleftrightarrow> t = ''go1'' \<or> (\<exists>n. 1 \<le> n \<and> n \<le> 255 \<and> t = ''go1.'' @ Itoa n))
   \<and> (lookup knownReleaseTag t \<longleftrightarrow> t \<in> dom knownReleaseTag)
   \<and> (t \<in> dom knownReleaseTag \<and> t \<in> set keys \<longrightarrow> t \<in> release (categorize_loop keys b))
   \<and> ''go1.256'' \<notin> dom knownReleaseTag
   \<and> ''go1.256'' \<notin> release (categorize_loop keys empty_buckets)
   \<and> (''go1.256'' \<in> set keys \<longrightarrow> ''go1.256'' \<in> build (categorize_loop keys b))"
proof -
  have 1: "t \<in> dom knownReleaseTag
      \<longleftrightarrow> t = ''go1'' \<or> (\<exists>n. 1 \<le> n \<and> n \<le> 255 \<and> t = ''go1.'' @ Itoa n)"
    by (rule knownReleaseTag_dom)
  have 2: "lookup knownReleaseTag t \<longleftrightarrow> t \<in> dom knownReleaseTag"
    by (rule knownReleaseTag_lookup)
  have 3: "t \<in> dom knownReleaseTag \<and> t \<in> set keys \<longrightarrow> t \<in> release (categorize_loop keys b)"
  proof
    assume h: "t \<in> dom knownReleaseTag \<and> t \<in> set keys"
    then obtain x where "t = ''go1'' @ x" unfolding knownReleaseTag_dom by auto
    with go1_not_platform [of x] have "\<not> lookup knownOS t" "\<not> lookup knownArch t"
      by simp_all
    with h 2 show "t \<in> release (categorize_loop keys b)"
      by (simp add: categorize_loop_release)
  qed
  have nr: "\<not> lookup knownReleaseTag ''go1.256''"
    using go1_256_not_release by (simp add: knownReleaseTag_lookup)
  have 5: "''go1.256'' \<notin> release (categorize_loop keys empty_buckets)"
    using nr by (simp add: categorize_loop_release empty_buckets_def)
  have np: "\<not> lookup knownOS ''go1.256''" "\<not> lookup knownArch ''go1.256''"
    using go1_not_platform [of "''.256''"] by simp_all
  have 6: "''go1.256'' \<in> set keys \<longrightarrow> ''go1.256'' \<in> build (categorize_loop keys b)"
    using nr np go1_256_not_special by (simp add: categorize_loop_build)
  from 1 2 3 go1_256_not_release 5 6 show ?thesis by (intro conjI)
qed

lemma Itoa_16: "Itoa 16 = ''16''"
  by code_simp

theorem release_tag_registry_witness:
  "''go1.16'' \<in> dom knownReleaseTag
   \<and> ''go1.16'' \<in> set [''linux'', ''go1.16'', ''go1.256'']
   \<and> ''go1.16'' \<in> release (categorize_loop [''linux'', ''go1.16'', ''go1.256''] empty_buckets)
   \<and> ''go1.256'' \<in> build (categorize_loop [''linux'', ''go1.16'', ''go1.256''] empty_buckets)"
proof -
  have "(1::int) \<le> 16 \<and> (16::int) \<le> 255 \<and> ''go1.16'' = ''go1.'' @ Itoa 16"
    by (simp add: Itoa_16)
  then have ex: "\<exists>n. 1 \<le> n \<and> n \<le> 255 \<and> ''go1.16'' = ''go1.'' @ Itoa n" ..
  have mem: "''go1.16'' \<in> set [''linux'', ''go1.16'', ''go1.256'']"
    "''go1.256'' \<in> set [''linux'', ''go1.16'', ''go1.256'']" by simp_all
  from release_tag_registry [of "''go1.16''" "[''linux'', ''go1.16'', ''go1.256'']" empty_buckets]
    ex mem
  show ?thesis by blast
qed

subsection \<open>The partition and its sorted output\<close>

lemma known_samples:
  "lookup knownOS ''linux''" "\<not> lookup knownOS ''arm64''" "\<not> lookup knownOS ''gc''"
  "\<not> lookup knownOS ''mytag''" "lookup knownArch ''arm64''" "\<not> lookup knownArch ''gc''"
  "\<not> lookup knownArch ''mytag''" "lookup knownSpecialTag ''gc''"
  "\<not> lookup knownSpecialTag ''mytag''"
  by (simp_all add: lookup_def knownOS_def knownArch_def knownSpecialTag_def)

lemma release_samples:
  "lookup knownReleaseTag ''go1.16''" "\<not> lookup knownReleaseTag ''gc''"
  "\<not> lookup knownReleaseTag ''mytag''"
proof -
  have "(1::int) \<le> 16 \<and> (16::int) \<le> 255 \<and> ''go1.16'' = ''go1.'' @ Itoa 16"
    by (simp add: Itoa_16)
  then show "lookup knownReleaseTag ''go1.16''"
    unfolding knownReleaseTag_lookup knownReleaseTag_dom by blast
  show "\<not> lookup knownReleaseTag ''gc''" "\<not> lookup knownReleaseTag ''mytag''"
    unfolding knownReleaseTag_lookup knownReleaseTag_dom by simp_all
qed

text \<open>
  The tag set that the two loops of \<open>run\<close> accumulate is finite.
\<close>

lemma addtags_finite: "finite tags \<Longrightarrow> finite (addtags tags e)"
  by (induction tags e rule: addtags.induct) (simp_all add: add_def)

lemma parsetags_loop_finite: "finite tags \<Longrightarrow> finite (fst (parsetags_loop C tags ls))"
proof (induction ls arbitrary: tags)
  case Nil
  then show ?case by simp
next
  case (Cons l ls)
  show ?case
  proof (cases "isBuildLine C l")
    case False
    with Cons show ?thesis by simp
  next
    case True
    show ?thesis
    proof (cases "Parse C l")
      case (Inl e)
      with True Cons.prems show ?thesis by simp
    next
      case (Inr expr)
      from Cons.prems have "finite (addtags tags expr)" by (rule addtags_finite)
      then have "finite (fst (parsetags_loop C (addtags tags expr) ls))" by (rule Cons.IH)
      with True Inr show ?thesis by simp
    qed
  qed
qed

lemma parsetags_finite: "finite tags \<Longrightarrow> finite (fst (parsetags C tags header))"
proof -
  assume fin: "finite tags"
  obtain ls e where sc: "scan_lines header = (ls, e)" by (cases "scan_lines header")
  obtain t r where lp: "parsetags_loop C tags ls = (t, r)" by (cases "parsetags_loop C tags ls")
  from fin have "finite (fst (parsetags_loop C tags ls))" by (rule parsetags_loop_finite)
  with lp have "finite t" by simp
  moreover have "fst (parsetags C tags header) = t"
    by (simp add: parsetags_def sc lp split: option.splits)
  ultimately show ?thesis by simp
qed

lemma add_autotags_finite: "finite tags \<Longrightarrow> finite (add_autotags tags name)"
  by (simp add: add_autotags_def Let_def add_def)

lemma parse_finite: "finite tags \<Longrightarrow> finite (fst (parse C W tags dir name))"
proof -
  assume "finite tags"
  then have fin: "finite (add_autotags tags name)" by (rule add_autotags_finite)
  show ?thesis
  proof (cases "parseheader W (Join W dir name)")
    case (Inl e)
    with fin show ?thesis by (simp add: parse_def)
  next
    case (Inr header)
    obtain t r where pt: "parsetags C (add_autotags tags name) header = (t, r)"
      by (cases "parsetags C (add_autotags tags name) header")
    from fin have "finite (fst (parsetags C (add_autotags tags name) header))"
      by (rule parsetags_finite)
    with pt have "finite t" by simp
    with Inr pt show ?thesis by (simp add: parse_def split: option.splits)
  qed
qed

lemma parse_files_finite: "finite tags \<Longrightarrow> finite (fst (parse_files C W tags dir gofiles))"
proof (induction gofiles arbitrary: tags)
  case Nil
  then show ?case by simp
next
  case (Cons f fs)
  obtain t r where p: "parse C W tags dir f = (t, r)" by (cases "parse C W tags dir f")
  from Cons.prems have "finite (fst (parse C W tags dir f))" by (rule parse_finite)
  with p have t: "finite t" by simp
  show ?case
  proof (cases r)
    case None
    with p Cons.IH [OF t] show ?thesis by simp
  next
    case (Some err)
    with p t show ?thesis by simp
  qed
qed

lemma parse_dirs_finite: "finite tags \<Longrightarrow> finite (fst (parse_dirs C W tags directories))"
proof (induction directories arbitrary: tags)
  case Nil
  then show ?case by simp
next
  case (Cons d ds)
  show ?case
  proof (cases "readdir W d")
    case (Inl err)
    with Cons.prems show ?thesis by simp
  next
    case (Inr fs)
    obtain t r where p: "parse_files C W tags d fs = (t, r)"
      by (cases "parse_files C W tags d fs")
    from Cons.prems have "finite (fst (parse_files C W tags d fs))" by (rule parse_files_finite)
    with p have t: "finite t" by simp
    show ?thesis
    proof (cases r)
      case None
      with Inr p Cons.IH [OF t] show ?thesis by simp
    next
      case (Some err)
      with Inr p t show ?thesis by simp
    qed
  qed
qed

lemma accumulated_tags_finite: "finite (fst (parse_dirs C W {} directories))"
  by (rule parse_dirs_finite) simp

text \<open>
  C6: the categorisation splits every finite tag set (as every accumulated set is, by
  \<open>accumulated_tags_finite\<close>) into five sets that are pairwise
  disjoint and whose union is the whole set.  A tag goes to the set of the first table
  that knows it, in the order operating system, architecture, release, special, and to
  the set of plain build tags when no table knows it.
\<close>

theorem categorize_partition:
  assumes "finite tags"
  shows "goos (categorize tags) = {t \<in> tags. lookup knownOS t}
    \<and> goarch (categorize tags) = {t \<in> tags. \<not> lookup knownOS t \<and> lookup knownArch t}
    \<and> release (categorize tags)
        = {t \<in> tags. \<not> lookup knownOS t \<and> \<not> lookup knownArch t \<and> lookup knownReleaseTag t}
    \<and> special (categorize tags)
        = {t \<in> tags. \<not> lookup knownOS t \<and> \<not> lookup knownArch t \<and> \<not> lookup knownReleaseTag t
                       \<and> lookup knownSpecialTag t}
    \<and> build (categorize tags)
        = {t \<in> tags. \<not> lookup knownOS t \<and> \<not> lookup knownArch t \<and> \<not> lookup knownReleaseTag t
                       \<and> \<not> lookup knownSpecialTag t}
    \<and> goos (categorize tags) \<union> goarch (categorize tags) \<union> release (categorize tags)
        \<union> special (categorize tags) \<union> build (categorize tags) = tags
    \<and> goos (categorize tags) \<inter> goarch (categorize tags) = {}
    \<and> goos (categorize tags) \<inter> release (categorize tags) = {}
    \<and> goos (categorize tags) \<inter> special (categorize tags) = {}
    \<and> goos (categorize tags) \<inter> build (categorize tags) = {}
    \<and> goarch (categorize tags) \<inter> release (categorize tags) = {}
    \<and> goarch (categorize tags) \<inter> special (categorize tags) = {}
    \<and> goarch (categorize tags) \<inter> build (categorize tags) = {}
    \<and> release (categorize tags) \<inter> special (categorize tags) = {}
    \<and> release (categorize tags) \<inter> build (categorize tags) = {}
    \<and> special (categorize tags) \<inter> build (categorize tags) = {}"
proof -
  from assms have k: "set (range_keys tags) = tags" by (rule range_keys_set)
  have g: "goos (categorize tags) = {t \<in> tags. lookup knownOS t}"
    by (simp add: categorize_def categorize_loop_goos k empty_buckets_def)
  have a: "goarch (categorize tags) = {t \<in> tags. \<not> lookup knownOS t \<and> lookup knownArch t}"
    by (simp add: categorize_def categorize_loop_goarch k empty_buckets_def)
  have r: "release (categorize tags)
        = {t \<in> tags. \<not> lookup knownOS t \<and> \<not> lookup knownArch t \<and> lookup knownReleaseTag t}"
    by (simp add: categorize_def categorize_loop_release k empty_buckets_def)
  have s: "special (categorize tags)
        = {t \<in> tags. \<not> lookup knownOS t \<and> \<not> lookup knownArch t \<and> \<not> lookup knownReleaseTag t
                       \<and> lookup knownSpecialTag t}"
    by (simp add: categorize_def categorize_loop_special k empty_buckets_def)
  have b: "build (categorize tags)
        = {t \<in> tags. \<not> lookup knownOS t \<and> \<not> lookup knownArch t \<and> \<not> lookup knownReleaseTag t
                       \<and> \<not> lookup knownSpecialTag t}"
    by (simp add: categorize_def categorize_loop_build k empty_buckets_def)
  have u: "goos (categorize tags) \<union> goarch (categorize tags) \<union> release (categorize tags)
        \<union> special (categorize tags) \<union> build (categorize tags) = tags"
    unfolding g a r s b by blast
  have d1: "goos (categorize tags) \<inter> goarch (categorize tags) = {}" unfolding g a by blast
  have d2: "goos (categorize tags) \<inter> release (categorize tags) = {}" unfolding g r by blast
  have d3: "goos (categorize tags) \<inter> special (categorize tags) = {}" unfolding g s by blast
  have d4: "goos (categorize tags) \<inter> build (categorize tags) = {}" unfolding g b by blast
  have d5: "goarch (categorize tags) \<inter> release (categorize tags) = {}" unfolding a r by blast
  have d6: "goarch (categorize tags) \<inter> special (categorize tags) = {}" unfolding a s by blast
  have d7: "goarch (categorize tags) \<inter> build (categorize tags) = {}" unfolding a b by blast
  have d8: "release (categorize tags) \<inter> special (categorize tags) = {}" unfolding r s by blast
  have d9: "release (categorize tags) \<inter> build (categorize tags) = {}" unfolding r b by blast
  have d10: "special (categorize tags) \<inter> build (categorize tags) = {}" unfolding s b by blast
  from g a r s b u d1 d2 d3 d4 d5 d6 d7 d8 d9 d10 show ?thesis by (intro conjI)
qed

theorem categorize_partition_witness:
  "finite {''mytag'', ''gc'', ''go1.16'', ''linux'', ''arm64''}
   \<and> goos (categorize {''mytag'', ''gc'', ''go1.16'', ''linux'', ''arm64''}) = {''linux''}
   \<and> goarch (categorize {''mytag'', ''gc'', ''go1.16'', ''linux'', ''arm64''}) = {''arm64''}
   \<and> release (categorize {''mytag'', ''gc'', ''go1.16'', ''linux'', ''arm64''}) = {''go1.16''}
   \<and> special (categorize {''mytag'', ''gc'', ''go1.16'', ''linux'', ''arm64''}) = {''gc''}
   \<and> build (categorize {''mytag'', ''gc'', ''go1.16'', ''linux'', ''arm64''}) = {''mytag''}"
proof -
  have fin: "finite {''mytag'', ''gc'', ''go1.16'', ''linux'', ''arm64''}" by simp
  have np: "\<not> lookup knownOS ''go1.16''" "\<not> lookup knownArch ''go1.16''"
    using go1_not_platform [of "''.16''"] by simp_all
  note facts = known_samples release_samples np
  from categorize_partition [OF fin] fin facts show ?thesis
    by auto
qed

lemma sorted_keys_sort: "sorted_keys keys = sort keys"
proof -
  have "foldl (\<lambda>list tag. list @ [tag]) acc keys = acc @ keys" for acc :: "string list"
    by (induction keys arbitrary: acc) simp_all
  then show ?thesis by (simp add: sorted_keys_def sort_Strings_def)
qed

lemma sorted_keys_any_order:
  assumes "distinct keys" "set keys = s"
  shows "sorted_keys keys = tagset_sorted s"
proof -
  from assms have fin: "finite s" by auto
  have "sorted_keys keys = sort keys" by (rule sorted_keys_sort)
  also from assms have "\<dots> = sorted_list_of_set s"
    by (metis sorted_list_of_set_sort_remdups distinct_remdups_id)
  also have "\<dots> = sort (sorted_list_of_set s)"
    by (simp add: sort_key_id_if_sorted)
  also have "\<dots> = tagset_sorted s"
    by (simp add: tagset_sorted_def sorted_keys_sort range_keys_def)
  finally show ?thesis .
qed

text \<open>
  C7: \<open>sorted\<close> gives the members of a set in ascending lexicographic order, each
  once, and gives the same list in whatever order the keys of the map are visited; the
  categorisation too gives the same five sets for every order of visit.  The output is
  therefore a function of the tag set alone.
\<close>

theorem sorted_output_deterministic:
  assumes "distinct keys" "set keys = s"
  shows "sorted (sorted_keys keys) \<and> distinct (sorted_keys keys) \<and> set (sorted_keys keys) = s
    \<and> sorted_keys keys = tagset_sorted s
    \<and> (\<forall>keys'. distinct keys' \<and> set keys' = s \<longrightarrow> sorted_keys keys' = sorted_keys keys)
    \<and> (\<forall>tagkeys. set tagkeys = tags \<longrightarrow> categorize_loop tagkeys empty_buckets = categorize tags)"
proof -
  have 1: "sorted (sorted_keys keys)" by (simp add: sorted_keys_sort)
  from assms have 2: "distinct (sorted_keys keys)" by (simp add: sorted_keys_sort)
  from assms have 3: "set (sorted_keys keys) = s" by (simp add: sorted_keys_sort)
  from assms have 4: "sorted_keys keys = tagset_sorted s" by (rule sorted_keys_any_order)
  have 5: "\<forall>keys'. distinct keys' \<and> set keys' = s \<longrightarrow> sorted_keys keys' = sorted_keys keys"
    using 4 sorted_keys_any_order by simp
  have 6: "\<forall>tagkeys. set tagkeys = tags \<longrightarrow> categorize_loop tagkeys empty_buckets = categorize tags"
  proof (intro allI impI)
    fix tagkeys :: "string list"
    assume tk: "set tagkeys = tags"
    then have "finite tags" by auto
    with tk have "set tagkeys = set (range_keys tags)" by (simp add: range_keys_set)
    then show "categorize_loop tagkeys empty_buckets = categorize tags"
      unfolding categorize_def by (rule categorize_loop_order)
  qed
  from 1 2 3 4 5 6 show ?thesis by (intro conjI)
qed

theorem sorted_output_deterministic_witness:
  "distinct [''linux'', ''aix'', ''darwin'']
   \<and> sorted_keys [''linux'', ''aix'', ''darwin''] = [''aix'', ''darwin'', ''linux'']
   \<and> sorted_keys [''darwin'', ''linux'', ''aix''] = [''aix'', ''darwin'', ''linux'']
   \<and> tagset_sorted {''linux'', ''aix'', ''darwin''} = [''aix'', ''darwin'', ''linux'']"
proof -
  have d: "distinct [''linux'', ''aix'', ''darwin'']" "distinct [''darwin'', ''linux'', ''aix'']"
    by simp_all
  have s: "set [''linux'', ''aix'', ''darwin''] = {''linux'', ''aix'', ''darwin''}"
    "set [''darwin'', ''linux'', ''aix''] = {''linux'', ''aix'', ''darwin''}" by auto
  have e: "sorted_keys [''linux'', ''aix'', ''darwin''] = [''aix'', ''darwin'', ''linux'']"
    by code_simp
  from sorted_output_deterministic [OF d(1) s(1)] d s e show ?thesis
    by simp
qed

subsection \<open>A run from the file names to the printed lines\<close>

text \<open>
  The directory \<open>/src/good\<close> of the sample holds \<open>README.md\<close> and \<open>good_arm64.go\<close>, whose
  header is the line \<open>//go:build linux || go1.16 || gc || mytag\<close> and an empty line.  The
  run prints one tag in each category.
\<close>

lemma good_readdir: "readdir sample_world ''/src/good'' = Inr [''good_arm64.go'']"
  by code_simp

lemma good_header:
  "parseheader sample_world (Join sample_world ''/src/good'' ''good_arm64.go'')
     = Inr (''//go:build linux || go1.16 || gc || mytag'' @ [CHR 0x0A, CHR 0x0A])"
  by code_simp

lemma good_scan:
  "scan_lines (''//go:build linux || go1.16 || gc || mytag'' @ [CHR 0x0A, CHR 0x0A])
     = ([''//go:build linux || go1.16 || gc || mytag'', ''''], None)"
  by (simp add: scan_lines.simps MaxScanTokenSize_def dropCR_def)

lemma good_line_is: "isBuildLine go_build_constraint ''//go:build linux || go1.16 || gc || mytag''"
  by code_simp

lemma empty_line_is_not: "\<not> isBuildLine go_build_constraint ''''"
  by code_simp

lemma good_line_parse:
  "Parse go_build_constraint ''//go:build linux || go1.16 || gc || mytag''
     = Inr (OrExpr (OrExpr (OrExpr (TagExpr ''linux'') (TagExpr ''go1.16'')) (TagExpr ''gc''))
              (TagExpr ''mytag''))"
  by code_simp

lemma good_name: "parsename ''good_arm64.go'' = (''arm64'', '''')"
  by code_simp

lemma good_parsetags:
  "parsetags go_build_constraint tags
     (''//go:build linux || go1.16 || gc || mytag'' @ [CHR 0x0A, CHR 0x0A])
     = (insert ''mytag'' (insert ''gc'' (insert ''go1.16'' (insert ''linux'' tags))), None)"
  unfolding parsetags_def good_scan
  by (simp add: good_line_is empty_line_is_not good_line_parse add_def)

lemma good_parse:
  "parse go_build_constraint sample_world {} ''/src/good'' ''good_arm64.go''
     = ({''mytag'', ''gc'', ''go1.16'', ''linux'', ''arm64''}, None)"
  using good_header good_parsetags [of "{''arm64''}"]
  by (simp add: parse_def add_autotags_def good_name add_def)

lemma good_tags:
  "parse_dirs go_build_constraint sample_world {} [''/src/good'']
     = ({''mytag'', ''gc'', ''go1.16'', ''linux'', ''arm64''}, None)"
  by (simp add: good_readdir good_parse)

lemma tagset_sorted_single: "tagset_sorted {t} = [t]"
  by (simp add: tagset_sorted_def sorted_keys_def sort_Strings_def range_keys_def)

lemma good_buckets:
  "goos (categorize {''mytag'', ''gc'', ''go1.16'', ''linux'', ''arm64''}) = {''linux''}
   \<and> goarch (categorize {''mytag'', ''gc'', ''go1.16'', ''linux'', ''arm64''}) = {''arm64''}
   \<and> release (categorize {''mytag'', ''gc'', ''go1.16'', ''linux'', ''arm64''}) = {''go1.16''}
   \<and> special (categorize {''mytag'', ''gc'', ''go1.16'', ''linux'', ''arm64''}) = {''gc''}
   \<and> build (categorize {''mytag'', ''gc'', ''go1.16'', ''linux'', ''arm64''}) = {''mytag''}"
proof -
  have "finite {''mytag'', ''gc'', ''go1.16'', ''linux'', ''arm64''}" by simp
  then have k: "set (range_keys {''mytag'', ''gc'', ''go1.16'', ''linux'', ''arm64''}) = {''mytag'', ''gc'', ''go1.16'', ''linux'', ''arm64''}" by (rule range_keys_set)
  have np: "\<not> lookup knownOS ''go1.16''" "\<not> lookup knownArch ''go1.16''"
    using go1_not_platform [of "''.16''"] by simp_all
  note facts = known_samples release_samples np
  show ?thesis
    unfolding categorize_def categorize_loop_buckets k empty_buckets_def
    using facts by auto
qed

lemma good_run:
  "run go_build_constraint sample_world [''/src/good'']
     = ([''GOOS: [linux]'', ''GOARCH: [arm64]'', ''release-tag: [go1.16]'',
         ''special-tag: [gc]'', ''build-tag: [mytag]''], None)"
  unfolding run_def good_tags
  using good_buckets
  by (simp add: tagset_sorted_single Println_def)

end
